theory Spec2Isabelle
  imports Complex_Main "HOL-Library.Word" "HOL-Library.Log_Nat"
begin

unbundle bit_operations_syntax

section \<open>JavaScript values used by the client\<close>

text \<open>
  A value of type \<open>'a option\<close> is what reading an array gives: \<open>None\<close> is \<open>undefined\<close>, on
  which every comparison with a number is false.  Counts and indices are integers.
  The playback index and the fields of the metadata are numbers that are finite, kept
  as rationals, and the wind speeds are reals.
\<close>

definition js_index :: "'a list \<Rightarrow> int \<Rightarrow> 'a option" where
  \<comment> \<open>\<open>xs[i]\<close> on an array or typed array: \<open>undefined\<close> outside \<open>0 .. length - 1\<close>, never an error\<close>
  "js_index xs i = (if 0 \<le> i \<and> i < int (length xs) then Some (xs ! nat i) else None)"

definition js_lt :: "rat option \<Rightarrow> rat option \<Rightarrow> bool" where
  "js_lt a b = (case a of None \<Rightarrow> False | Some x \<Rightarrow> (case b of None \<Rightarrow> False | Some y \<Rightarrow> x < y))"

definition js_eq :: "rat option \<Rightarrow> rat option \<Rightarrow> bool" where
  \<comment> \<open>\<open>===\<close> between a number and an array element\<close>
  "js_eq a b = (case a of None \<Rightarrow> False | Some x \<Rightarrow> (case b of None \<Rightarrow> False | Some y \<Rightarrow> x = y))"

subsection \<open>Double precision arithmetic\<close>

text \<open>
  The time index is computed with the arithmetic of JavaScript numbers, IEEE 754
  binary64.  A number is a finite double, kept as the rational it denotes, an infinity
  or \<open>NaN\<close>; the two zeros are one value, which the operations below (subtraction,
  division by a positive constant, comparison) do not tell apart.  The result of an
  operation on finite numbers is the exact result rounded to the nearest double, a tie
  going to the even significand: 53 bits from exponent -1022 on, multiples of
  \<open>2 powi - 1074\<close> below, an infinity from the middle between the largest double and
  \<open>2 powi 1024\<close> on.
\<close>

datatype jsnum = Finite rat | PosInf | NegInf | NaN

definition round_even :: "rat \<Rightarrow> int" where
  "round_even y =
     (let f = \<lfloor>y\<rfloor>; r = y - of_int f
      in if r < 1 / 2 then f else if 1 / 2 < r then f + 1 else if even f then f else f + 1)"

definition expo :: "rat \<Rightarrow> int" where
  \<comment> \<open>for \<open>0 < x\<close>, the \<open>e\<close> with \<open>2 powi e \<le> x < 2 powi (e + 1)\<close>\<close>
  "expo x = (if 1 \<le> x then bitlen \<lfloor>x\<rfloor> - 1 else - bitlen (\<lceil>1 / x\<rceil> - 1))"

definition quantum :: "rat \<Rightarrow> rat" where
  \<comment> \<open>for \<open>0 < x\<close>, the distance between the doubles around \<open>x\<close>\<close>
  "quantum x = 2 powi (max (expo x) (- 1022) - 52)"

definition round_magnitude :: "rat \<Rightarrow> rat" where
  "round_magnitude x = of_int (round_even (x / quantum x)) * quantum x"

definition to_double :: "rat \<Rightarrow> jsnum" where
  "to_double x =
     (if x = 0 then Finite 0
      else
        let r = round_magnitude \<bar>x\<bar>
        in if 2 powi 1024 \<le> r then (if 0 < x then PosInf else NegInf)
           else Finite (if 0 < x then r else - r))"

fun js_minus :: "jsnum \<Rightarrow> jsnum \<Rightarrow> jsnum" where
  "js_minus NaN y = NaN"
| "js_minus x NaN = NaN"
| "js_minus (Finite a) (Finite b) = to_double (a - b)"
| "js_minus (Finite a) PosInf = NegInf"
| "js_minus (Finite a) NegInf = PosInf"
| "js_minus PosInf PosInf = NaN"
| "js_minus PosInf y = PosInf"
| "js_minus NegInf NegInf = NaN"
| "js_minus NegInf y = NegInf"

definition js_divide :: "jsnum \<Rightarrow> rat \<Rightarrow> jsnum" where
  \<comment> \<open>division by a positive finite number\<close>
  "js_divide x c = (case x of Finite a \<Rightarrow> to_double (a / c) | _ \<Rightarrow> x)"

fun js_less :: "jsnum \<Rightarrow> jsnum \<Rightarrow> bool" where
  "js_less NaN y = False"
| "js_less x NaN = False"
| "js_less (Finite a) (Finite b) = (a < b)"
| "js_less x NegInf = False"
| "js_less NegInf y = True"
| "js_less PosInf y = False"
| "js_less (Finite a) PosInf = True"

definition js_number :: "rat option \<Rightarrow> jsnum" where
  \<comment> \<open>an array element as an operand of \<open>-\<close>: \<open>undefined\<close> becomes \<open>NaN\<close>\<close>
  "js_number v = (case v of None \<Rightarrow> NaN | Some x \<Rightarrow> Finite x)"

section \<open>GRIB metadata (grib.js, typedef GribMeta)\<close>

record GribMeta =
  epochStart :: rat
  topLat :: rat
  bottomLat :: rat
  leftLon :: rat
  rightLon :: rat
  latStep :: rat
  lonStep :: rat
  nLat :: int
  nLon :: int
  nTimeStamp :: int
  nShortName :: int
  timeStamps :: "rat list"
  shortNames :: "string list"
  name :: string

section \<open>Time index resolution (wind layer)\<close>

text \<open>
  \<open>findTimeAround\<close> returns at once for a target that is not finite.  Its loop runs \<open>k\<close>
  from 0 while \<open>k < n\<close>, with \<open>n\<close> the field \<open>nTimeStamp\<close> (not the array's length), on a
  finite target; comparing two doubles is exact.
\<close>

function findTimeAround_loop :: "rat list \<Rightarrow> int \<Rightarrow> rat \<Rightarrow> int \<Rightarrow> int \<times> int" where
  "findTimeAround_loop ts n tHours k =
     (if k < n then
        (if js_eq (Some tHours) (js_index ts k) then (k, k)
         else if js_lt (Some tHours) (js_index ts k) then (k - 1, k)
         else findTimeAround_loop ts n tHours (k + 1))
      else (n - 1, n - 1))"
  by pat_completeness auto
termination
  by (relation "measure (\<lambda>(ts, n, tHours, k). nat (n - k))") auto

declare findTimeAround_loop.simps [simp del]

definition findTimeAround :: "GribMeta \<Rightarrow> jsnum \<Rightarrow> int \<times> int" where
  "findTimeAround gribLimits tHours =
     (let ts = timeStamps gribLimits; n = nTimeStamp gribLimits in
      case tHours of
        Finite x \<Rightarrow>
          if js_lt (Some x) (js_index ts 0) then (0, 0)
          else findTimeAround_loop ts n x 0
      | _ \<Rightarrow> (0, 0))"

definition diffHours :: "GribMeta \<Rightarrow> jsnum \<Rightarrow> jsnum" where
  "diffHours gribLimits currentEpoch =
     js_divide (js_minus currentEpoch (Finite (epochStart gribLimits))) 3600"

definition getGribTimeIndexFromEpoch :: "GribMeta \<Rightarrow> jsnum \<Rightarrow> int" where
  "getGribTimeIndexFromEpoch gribLimits currentEpoch =
     (let d = diffHours gribLimits currentEpoch;
          (iTInf, iTSup) = findTimeAround gribLimits d;
          ts = timeStamps gribLimits
      in if js_less (js_minus (js_number (js_index ts iTSup)) d)
                    (js_minus d (js_number (js_index ts iTInf)))
         then iTSup else iTInf)"

definition steps_meta :: "rat \<Rightarrow> rat list \<Rightarrow> GribMeta" where
  \<comment> \<open>a metadata object with run start \<open>e\<close> and forecast steps \<open>ts\<close>; the grid is 1 x 1\<close>
  "steps_meta e ts =
     \<lparr> epochStart = e, topLat = 0, bottomLat = 0, leftLon = 0, rightLon = 0,
       latStep = 1, lonStep = 1, nLat = 1, nLon = 1, nTimeStamp = int (length ts),
       nShortName = 2, timeStamps = ts, shortNames = [''10u'', ''10v''], name = ''gfs.grb'' \<rparr>"

section \<open>Field decoder (grib.js, gribLoad)\<close>

text \<open>
  The body of the binary response is a sequence of bytes; \<open>new Float32Array(buf)\<close> views
  it as little-endian 32-bit floats and raises a RangeError when the byte length is not
  a multiple of four.  A float is kept as its 32-bit pattern, so that the all-zero
  pattern is the number 0 that absent components default to.
\<close>

type_synonym byte = "8 word"
type_synonym float32 = "32 word"

datatype js_error =
    GribLoadHttpError nat
  | MissingShortnamesHeader
  | Float32ArrayRangeError
  | UnexpectedSize int int
  | GribMetaHttpError nat
  | ServerGribMetaError string
  | EmptyGribMeta
  | TypeError

record dump_response =
  dump_ok :: bool
  dump_status :: nat
  x_shortnames :: "string option"
  dump_body :: "byte list"

definition le_float32 :: "byte \<Rightarrow> byte \<Rightarrow> byte \<Rightarrow> byte \<Rightarrow> float32" where
  "le_float32 a b c d =
     ucast a OR push_bit 8 (ucast b) OR push_bit 16 (ucast c) OR push_bit 24 (ucast d)"

fun float32s :: "byte list \<Rightarrow> float32 list" where
  "float32s (a # b # c # d # rest) = le_float32 a b c d # float32s rest"
| "float32s _ = []"

definition Float32Array :: "byte list \<Rightarrow> js_error + float32 list" where
  "Float32Array buf =
     (if length buf mod 4 \<noteq> 0 then Inl Float32ArrayRangeError else Inr (float32s buf))"

record GribField =
  fld_values :: "float32 list"
  fld_nLat :: int
  fld_nLon :: int
  fld_nTime :: int
  fld_nShortName :: int
  fld_shortnames :: string

definition hasG :: "string \<Rightarrow> bool" where
  "hasG shortnamesStr = (CHR ''g'' \<in> set shortnamesStr)"

definition hasW :: "string \<Rightarrow> bool" where
  "hasW shortnamesStr = (CHR ''w'' \<in> set shortnamesStr)"

definition header_nShortName :: "string \<Rightarrow> int" where
  "header_nShortName shortnamesStr =
     2 + (if hasG shortnamesStr then 1 else 0) + (if hasW shortnamesStr then 1 else 0)"

text \<open>
  \<open>gribLoad\<close> after its request: the response is an argument.  The parameters \<open>dir\<close>,
  \<open>model\<close>, \<open>gribName\<close> and \<open>onlyUV\<close> only shape the request; \<open>nName\<close> only decides
  whether a warning is logged, as does a header without u or v.
\<close>

definition gribLoad :: "dump_response \<Rightarrow> int \<Rightarrow> int \<Rightarrow> int \<Rightarrow> int \<Rightarrow> js_error + GribField" where
  "gribLoad res nTime nLat' nLon' nName =
     (if \<not> dump_ok res then Inl (GribLoadHttpError (dump_status res))
      else case x_shortnames res of
        None \<Rightarrow> Inl MissingShortnamesHeader
      | Some shortnamesStr \<Rightarrow>
          if shortnamesStr = [] then Inl MissingShortnamesHeader
          else
            let nShortName' = header_nShortName shortnamesStr in
            (case Float32Array (dump_body res) of
               Inl e \<Rightarrow> Inl e
             | Inr vals \<Rightarrow>
                 let expected = nTime * nLat' * nLon' * nShortName' in
                 if int (length vals) \<noteq> expected
                 then Inl (UnexpectedSize (int (length vals)) expected)
                 else Inr \<lparr> fld_values = vals, fld_nLat = nLat', fld_nLon = nLon',
                            fld_nTime = nTime, fld_nShortName = nShortName',
                            fld_shortnames = shortnamesStr \<rparr>))"

definition indexOf :: "GribField \<Rightarrow> int \<Rightarrow> int \<Rightarrow> int \<Rightarrow> int" where
  "indexOf f tIndex iLat iLon =
     (((tIndex * fld_nLat f) + iLat) * fld_nLon f + iLon) * fld_nShortName f"

record UVGW =
  uvgw_u :: "float32 option"
  uvgw_v :: "float32 option"
  uvgw_g :: "float32 option"
  uvgw_w :: "float32 option"

definition getUVGW :: "GribField \<Rightarrow> int \<Rightarrow> int \<Rightarrow> int \<Rightarrow> UVGW" where
  "getUVGW f tIndex iLat iLon =
     (let idx = indexOf f tIndex iLat iLon;
          vals = fld_values f;
          offset = (if hasG (fld_shortnames f) then 3 else 2)
      in \<lparr> uvgw_u = js_index vals idx,
           uvgw_v = js_index vals (idx + 1),
           uvgw_g = (if hasG (fld_shortnames f) then js_index vals (idx + 2) else Some 0),
           uvgw_w = (if hasW (fld_shortnames f) then js_index vals (idx + offset) else Some 0) \<rparr>)"

section \<open>Forecast cache (grib.js, ensureGribLoaded and forceReloadGrib)\<close>

text \<open>
  Objects live in a store, a list indexed by address.  Address 0 is the module's
  \<open>gribLimits\<close> object, which \<open>Object.assign\<close> overwrites in place and which every
  returned \<open>meta\<close> refers to; address 1 is the initial empty \<open>dataGrib\<close> object.  A field
  object is allocated by each successful \<open>gribLoad\<close> and never changed afterwards.
  The metadata response is typed by the source's \<open>GribMeta\<close>: an object with all of its
  properties, an empty object, or an object with a truthy \<open>_Error\<close>.
\<close>

datatype obj = EmptyObj | MetaObj GribMeta | FieldObj GribField

datatype ref = Null | Undefined | Ref nat

record GribCache =
  cache_key :: "string option"
  cache_meta :: ref
  cache_field :: ref
  cache_loading :: bool

record world =
  heap :: "obj list"
  dataGrib :: nat
  gribCache :: GribCache
  fetches :: nat

definition gribLimits :: nat where
  "gribLimits = 0"

definition init_world :: world where
  "init_world =
     \<lparr> heap = [EmptyObj, EmptyObj], dataGrib = 1,
       gribCache = \<lparr> cache_key = None, cache_meta = Null, cache_field = Null,
                     cache_loading = False \<rparr>,
       fetches = 0 \<rparr>"

record load_args =
  arg_model :: string
  arg_gribName :: string
  arg_onlyUV :: bool

datatype meta_json = ServerError string | EmptyJson | MetaJson GribMeta

record meta_response =
  meta_ok :: bool
  meta_status :: nat
  meta_body :: meta_json

datatype task =
    AwaitMeta load_args
  | AwaitDump load_args int int int int

datatype outcome = Returned ref ref | Threw js_error | Fetching task

definition make_key :: "string \<Rightarrow> string \<Rightarrow> bool \<Rightarrow> string" where
  \<comment> \<open>the template \<open>${model}/${name}?onlyUV=${onlyUV ? 1 : 0}\<close>\<close>
  "make_key model' name' onlyUV = model' @ ''/'' @ name' @ ''?onlyUV='' @ (if onlyUV then ''1'' else ''0'')"

definition wantedKey :: "load_args \<Rightarrow> string" where
  "wantedKey a = make_key (arg_model a) (arg_gribName a) (arg_onlyUV a)"

definition has_getUVGW :: "obj list \<Rightarrow> ref \<Rightarrow> bool" where
  \<comment> \<open>\<open>cache.field && cache.field.getUVGW\<close>\<close>
  "has_getUVGW h r =
     (case r of
        Ref a \<Rightarrow> (case js_index h (int a) of Some (FieldObj f) \<Rightarrow> True | _ \<Rightarrow> False)
      | _ \<Rightarrow> False)"

definition is_object :: "ref \<Rightarrow> bool" where
  "is_object r = (case r of Ref a \<Rightarrow> True | _ \<Rightarrow> False)"

definition set_loading :: "bool \<Rightarrow> world \<Rightarrow> world" where
  "set_loading b w = w\<lparr> gribCache := (gribCache w)\<lparr> cache_loading := b \<rparr> \<rparr>"

definition fetch :: "world \<Rightarrow> world" where
  "fetch w = w\<lparr> fetches := Suc (fetches w) \<rparr>"

definition meta_name :: "obj list \<Rightarrow> string" where
  \<comment> \<open>\<open>meta.name\<close> of the \<open>gribLimits\<close> object, the empty string standing for a falsy value\<close>
  "meta_name h = (case js_index h (int gribLimits) of Some (MetaObj m) \<Rightarrow> name m | _ \<Rightarrow> [])"

text \<open>
  \<open>ensureGribLoaded\<close> runs in three synchronous pieces: the call, up to the metadata
  request; the continuation on the metadata response, up to the binary request; the
  continuation on the binary response.  Reading a response's body is merged with the
  arrival of its headers.  When \<open>gribMetaAndLoad\<close> returns \<open>false\<close> (no model and no
  file name) nothing is requested and the continuation, a microtask, is run with the
  call.
\<close>

definition ensureGribLoaded_call :: "world \<Rightarrow> load_args \<Rightarrow> world \<times> outcome" where
  "ensureGribLoaded_call w a =
     (let cache = gribCache w in
      if cache_loading cache then (w, Returned (cache_meta cache) (cache_field cache))
      else if cache_key cache = Some (wantedKey a) \<and> is_object (cache_meta cache)
              \<and> has_getUVGW (heap w) (cache_field cache)
      then (w, Returned (cache_meta cache) (cache_field cache))
      else if arg_model a = [] \<and> arg_gribName a = []
      then (w\<lparr> gribCache := \<lparr> cache_key = Some (make_key (arg_model a) (arg_gribName a) (arg_onlyUV a)),
                               cache_meta = Undefined, cache_field = Undefined,
                               cache_loading = False \<rparr> \<rparr>,
            Returned Undefined Undefined)
      else (fetch (set_loading True w), Fetching (AwaitMeta a)))"

definition gribMetaAndLoad_meta :: "world \<Rightarrow> meta_response \<Rightarrow> js_error + world \<times> GribMeta" where
  "gribMetaAndLoad_meta w response =
     (if \<not> meta_ok response then Inl (GribMetaHttpError (meta_status response))
      else case meta_body response of
        ServerError e \<Rightarrow> Inl (ServerGribMetaError e)
      | EmptyJson \<Rightarrow> Inl EmptyGribMeta
      | MetaJson data \<Rightarrow> Inr (w\<lparr> heap := (heap w)[gribLimits := MetaObj data] \<rparr>, data))"

definition ensureGribLoaded_meta :: "world \<Rightarrow> load_args \<Rightarrow> meta_response \<Rightarrow> world \<times> outcome" where
  "ensureGribLoaded_meta w a response =
     (case gribMetaAndLoad_meta w response of
        Inl e \<Rightarrow> (set_loading False w, Threw e)
      | Inr (w', data) \<Rightarrow>
          (fetch w', Fetching (AwaitDump a (nTimeStamp data) (nLat data) (nLon data) (nShortName data))))"

definition gribMetaAndLoad_dump ::
  "world \<Rightarrow> dump_response \<Rightarrow> int \<Rightarrow> int \<Rightarrow> int \<Rightarrow> int \<Rightarrow> js_error + world \<times> ref \<times> ref" where
  "gribMetaAndLoad_dump w res nTime nLat' nLon' nName =
     (case gribLoad res nTime nLat' nLon' nName of
        Inl e \<Rightarrow> Inl e
      | Inr f \<Rightarrow>
          (let a = length (heap w);
               w' = w\<lparr> heap := heap w @ [FieldObj f], dataGrib := a \<rparr>
           in Inr (w', Ref gribLimits, Ref (dataGrib w'))))"

definition ensureGribLoaded_dump ::
  "world \<Rightarrow> load_args \<Rightarrow> int \<Rightarrow> int \<Rightarrow> int \<Rightarrow> int \<Rightarrow> dump_response \<Rightarrow> world \<times> outcome" where
  "ensureGribLoaded_dump w a nTime nLat' nLon' nName res =
     (case gribMetaAndLoad_dump w res nTime nLat' nLon' nName of
        Inl e \<Rightarrow> (set_loading False w, Threw e)
      | Inr (w', meta, field) \<Rightarrow>
          (let realName = (if meta_name (heap w') \<noteq> [] then meta_name (heap w') else arg_gribName a)
           in (w'\<lparr> gribCache := \<lparr> cache_key = Some (make_key (arg_model a) realName (arg_onlyUV a)),
                                   cache_meta = meta, cache_field = field,
                                   cache_loading = False \<rparr> \<rparr>,
               Returned meta field)))"

definition forceReloadGrib_call :: "world \<Rightarrow> load_args \<Rightarrow> world \<times> outcome" where
  "forceReloadGrib_call w a =
     ensureGribLoaded_call
       (w\<lparr> gribCache := \<lparr> cache_key = None, cache_meta = Null, cache_field = Null,
                          cache_loading = False \<rparr> \<rparr>) a"

text \<open>
  One call run to its end with nothing in between, on the two responses of the server.
  \<open>gribMetaAndLoad\<close> is modelled as \<open>ensureGribLoaded\<close> calls it, with \<open>load\<close> set.
\<close>

definition ensureGribLoaded :: "world \<Rightarrow> load_args \<Rightarrow> meta_response \<Rightarrow> dump_response \<Rightarrow> world \<times> outcome" where
  "ensureGribLoaded w a mres dres =
     (case ensureGribLoaded_call w a of
        (w1, Fetching t1) \<Rightarrow>
          (case ensureGribLoaded_meta w1 a mres of
             (w2, Fetching (AwaitDump a' nTime nLat' nLon' nName)) \<Rightarrow>
               ensureGribLoaded_dump w2 a' nTime nLat' nLon' nName dres
           | r \<Rightarrow> r)
      | r \<Rightarrow> r)"

definition forceReloadGrib :: "world \<Rightarrow> load_args \<Rightarrow> meta_response \<Rightarrow> dump_response \<Rightarrow> world \<times> outcome" where
  "forceReloadGrib w a mres dres =
     ensureGribLoaded
       (w\<lparr> gribCache := \<lparr> cache_key = None, cache_meta = Null, cache_field = Null,
                          cache_loading = False \<rparr> \<rparr>) a mres dres"

text \<open>
  Interleaved calls: the loads in flight are kept beside the world, and an event is a
  call or the arrival of the response a load in flight waits for.
\<close>

record system =
  sys_world :: world
  inflight :: "task list"

datatype event =
    CallEnsure load_args
  | CallForce load_args
  | MetaArrives nat meta_response
  | DumpArrives nat dump_response

definition settle :: "system \<Rightarrow> nat \<Rightarrow> world \<times> outcome \<Rightarrow> system" where
  \<comment> \<open>the load at position \<open>i\<close> goes on waiting for its next response, or ends\<close>
  "settle s i r =
     (case snd r of
        Fetching t \<Rightarrow> \<lparr> sys_world = fst r, inflight = (inflight s)[i := t] \<rparr>
      | _ \<Rightarrow> \<lparr> sys_world = fst r, inflight = take i (inflight s) @ drop (Suc i) (inflight s) \<rparr>)"

definition start :: "system \<Rightarrow> world \<times> outcome \<Rightarrow> system" where
  "start s r =
     (case snd r of
        Fetching t \<Rightarrow> \<lparr> sys_world = fst r, inflight = inflight s @ [t] \<rparr>
      | _ \<Rightarrow> \<lparr> sys_world = fst r, inflight = inflight s \<rparr>)"

fun step_event :: "system \<Rightarrow> event \<Rightarrow> system" where
  "step_event s (CallEnsure a) = start s (ensureGribLoaded_call (sys_world s) a)"
| "step_event s (CallForce a) = start s (forceReloadGrib_call (sys_world s) a)"
| "step_event s (MetaArrives i response) =
     (if i < length (inflight s) then
        (case inflight s ! i of
           AwaitMeta a \<Rightarrow> settle s i (ensureGribLoaded_meta (sys_world s) a response)
         | _ \<Rightarrow> s)
      else s)"
| "step_event s (DumpArrives i res) =
     (if i < length (inflight s) then
        (case inflight s ! i of
           AwaitDump a nTime nLat' nLon' nName \<Rightarrow>
             settle s i (ensureGribLoaded_dump (sys_world s) a nTime nLat' nLon' nName res)
         | _ \<Rightarrow> s)
      else s)"

definition run_events :: "system \<Rightarrow> event list \<Rightarrow> system" where
  "run_events s evs = foldl step_event s evs"

definition init_system :: system where
  "init_system = \<lparr> sys_world = init_world, inflight = [] \<rparr>"

fun is_force :: "event \<Rightarrow> bool" where
  "is_force (CallForce a) = True"
| "is_force _ = False"

fun task_key :: "task \<Rightarrow> string" where
  "task_key (AwaitMeta a) = wantedKey a"
| "task_key (AwaitDump a nTime nLat' nLon' nName) = wantedKey a"

definition loads_in_progress :: "system \<Rightarrow> string \<Rightarrow> nat" where
  "loads_in_progress s k = length (filter (\<lambda>t. task_key t = k) (inflight s))"

section \<open>Playback controller (route.js, window.player)\<close>

text \<open>
  The closure's variables \<open>timer\<close>, \<open>playing\<close>, \<open>route\<close> and \<open>k\<close>, with what the player
  publishes to the wind layer: the argument of the last \<open>setRouteState\<close> and the number
  of \<open>redraw\<close> calls.  The index \<open>k\<close> is a number, not only an integer.  The page's
  elements (status line, slider, play button) and the boat marker are written but
  never read back, and are left out; \<open>lastRouteData\<close> holds the route's response, as
  \<open>computeRouteAndWind\<close> sets it before it attaches the route.
\<close>

record RoutePoint =
  pt_lat :: rat
  pt_lon :: rat
  pt_t :: rat

record RouteData =
  t0Epoch :: rat
  dtRoute :: rat
  pts :: "RoutePoint list"
  gribName :: string
  currentGrib :: string

record RouteState =
  rs_t0Epoch :: rat
  rs_dtRoute :: rat
  rs_k :: rat

record player =
  p_timer :: bool
  p_playing :: bool
  p_route :: "RouteData option"
  p_k :: rat
  wl_routeState :: "RouteState option"
  wl_redraws :: nat

definition pts_at :: "RouteData \<Rightarrow> rat \<Rightarrow> RoutePoint option" where
  \<comment> \<open>\<open>route.pts[k]\<close>: \<open>undefined\<close> unless \<open>k\<close> is an integer inside the array\<close>
  "pts_at r x = (if of_int \<lfloor>x\<rfloor> = x then js_index (pts r) \<lfloor>x\<rfloor> else None)"

definition last_index :: "RouteData \<Rightarrow> rat" where
  \<comment> \<open>\<open>route.pts.length - 1\<close>\<close>
  "last_index r = of_nat (length (pts r)) - 1"

definition update :: "player \<Rightarrow> player \<times> js_error option" where
  \<comment> \<open>\<open>p.lat\<close> raises a TypeError when \<open>route.pts[k]\<close> is \<open>undefined\<close>, before anything is published\<close>
  "update s =
     (case p_route s of
        None \<Rightarrow> (s, None)
      | Some r \<Rightarrow>
          (case pts_at r (p_k s) of
             None \<Rightarrow> (s, Some TypeError)
           | Some p \<Rightarrow>
               (s\<lparr> wl_routeState :=
                      Some \<lparr> rs_t0Epoch = t0Epoch r, rs_dtRoute = dtRoute r, rs_k = p_k s \<rparr>,
                    wl_redraws := Suc (wl_redraws s) \<rparr>, None)))"

definition stop :: "player \<Rightarrow> player" where
  "stop s = s\<lparr> p_playing := False, p_timer := False \<rparr>"

definition play :: "player \<Rightarrow> player" where
  "play s = (if p_route s = None \<or> p_playing s then s else s\<lparr> p_playing := True, p_timer := True \<rparr>)"

definition togglePlay :: "player \<Rightarrow> player" where
  "togglePlay s = (if p_playing s then stop s else play s)"

definition setIndex :: "player \<Rightarrow> rat \<Rightarrow> player \<times> js_error option" where
  "setIndex s newK =
     (case p_route s of
        None \<Rightarrow> (s, None)
      | Some r \<Rightarrow> update (s\<lparr> p_k := max 0 (min (last_index r) newK) \<rparr>))"

definition setRoute :: "player \<Rightarrow> RouteData \<Rightarrow> player \<times> js_error option" where
  "setRoute s r = update (s\<lparr> p_route := Some r, p_k := 0 \<rparr>)"

definition gotoBeg :: "player \<Rightarrow> player \<times> js_error option" where
  "gotoBeg s =
     (case p_route s of
        None \<Rightarrow> (s, None)
      | Some r \<Rightarrow> update (stop (s\<lparr> p_k := 0 \<rparr>)))"

definition gotoEnd :: "player \<Rightarrow> player \<times> js_error option" where
  "gotoEnd s =
     (case p_route s of
        None \<Rightarrow> (s, None)
      | Some r \<Rightarrow> update (stop (s\<lparr> p_k := last_index r \<rparr>)))"

definition step :: "player \<Rightarrow> rat \<Rightarrow> player \<times> js_error option" where
  "step s dir =
     (case p_route s of
        None \<Rightarrow> (s, None)
      | Some r \<Rightarrow> update (s\<lparr> p_k := max 0 (min (last_index r) (p_k s + dir)) \<rparr>))"

definition tick :: "player \<Rightarrow> player \<times> js_error option" where
  "tick s =
     (case p_route s of
        None \<Rightarrow> (stop s, None)
      | Some r \<Rightarrow>
          if p_k s \<ge> last_index r then (stop s, None)
          else update (s\<lparr> p_k := p_k s + 1 \<rparr>))"

definition reset :: "player \<Rightarrow> player" where
  "reset s = (stop s)\<lparr> p_route := None, p_k := 0 \<rparr>"

definition init_player :: player where
  "init_player =
     \<lparr> p_timer = False, p_playing = False, p_route = None, p_k = 0,
       wl_routeState = None, wl_redraws = 0 \<rparr>"

datatype playback_op = SetIndex rat | Step rat | Tick | GotoBeg | GotoEnd

fun perform :: "player \<Rightarrow> playback_op \<Rightarrow> player" where
  \<comment> \<open>an error ends the handler; the variables keep what was assigned before it\<close>
  "perform s (SetIndex x) = fst (setIndex s x)"
| "perform s (Step dir) = fst (step s dir)"
| "perform s Tick = fst (tick s)"
| "perform s GotoBeg = fst (gotoBeg s)"
| "perform s GotoEnd = fst (gotoEnd s)"

definition perform_all :: "player \<Rightarrow> playback_op list \<Rightarrow> player" where
  "perform_all s ops = foldl perform s ops"

fun integral_op :: "playback_op \<Rightarrow> bool" where
  "integral_op (SetIndex x) = (of_int \<lfloor>x\<rfloor> = x)"
| "integral_op (Step dir) = (dir = 1 \<or> dir = - 1)"
| "integral_op _ = True"

definition in_range :: "player \<Rightarrow> nat \<Rightarrow> bool" where
  \<comment> \<open>the index is an integer of \<open>0 .. n - 1\<close>\<close>
  "in_range s n = (of_int \<lfloor>p_k s\<rfloor> = p_k s \<and> 0 \<le> p_k s \<and> p_k s \<le> of_nat n - 1)"

definition route_of :: "nat \<Rightarrow> RouteData" where
  \<comment> \<open>a route of \<open>n\<close> points, one per hour along the equator\<close>
  "route_of n =
     \<lparr> t0Epoch = 0, dtRoute = 3600,
       pts = map (\<lambda>i. \<lparr> pt_lat = 0, pt_lon = of_nat i, pt_t = 3600 * of_nat i \<rparr>) [0..<n],
       gribName = ''gfs.grb'', currentGrib = [] \<rparr>"

section \<open>Wind barbs (wind layer, drawWindBarb)\<close>

text \<open>
  The drawing context is the list of the calls made on it.  The constant \<open>MS_TO_KN\<close> is
  declared outside these sources and is a parameter.  Speeds and coordinates are reals;
  every real is finite, so the tests \<open>isFinite\<close> always hold.
\<close>

datatype canvas_op =
    BeginPath
  | Arc real real real real real
  | MoveTo real real
  | LineTo real real
  | ClosePath
  | Fill
  | Stroke

definition barb_counts :: "real \<Rightarrow> int \<times> int \<times> int" where
  \<comment> \<open>\<open>n50\<close>, \<open>n10\<close> and \<open>has5\<close> of the speed the bias has been added to\<close>
  "barb_counts speedKts =
     (let n50 = \<lfloor>speedKts / 50\<rfloor>;
          remainder = speedKts - of_int n50 * 50;
          n10 = \<lfloor>remainder / 10\<rfloor>;
          remainder' = remainder - of_int n10 * 10;
          has5 = (if remainder' \<ge> 5 then 1 else 0)
      in (n50, n10, has5))"

fun pennants :: "nat \<Rightarrow> real \<Rightarrow> real \<Rightarrow> real \<Rightarrow> real \<Rightarrow> real \<Rightarrow> canvas_op list \<times> real" where
  \<comment> \<open>the first loop: the calls it makes and \<open>currentOffset\<close> after it; \<open>barbSpacing\<close> is 4, \<open>barbLength\<close> is 7\<close>
  "pennants 0 headX headY dirX dirY currentOffset = ([], currentOffset)"
| "pennants (Suc n) headX headY dirX dirY currentOffset =
     (let baseHeadX = headX - dirX * currentOffset;
          baseHeadY = headY - dirY * currentOffset;
          baseTailX = baseHeadX - dirX * 4;
          baseTailY = baseHeadY - dirY * 4;
          tipX = baseTailX + (- dirY) * 7;
          tipY = baseTailY + dirX * 7;
          (rest, offset') = pennants n headX headY dirX dirY (currentOffset + 4)
      in ([BeginPath, MoveTo baseHeadX baseHeadY, LineTo baseTailX baseTailY, LineTo tipX tipY,
           ClosePath, Fill, Stroke] @ rest, offset'))"

fun barbs :: "nat \<Rightarrow> real \<Rightarrow> real \<Rightarrow> real \<Rightarrow> real \<Rightarrow> real \<Rightarrow> canvas_op list \<times> real" where
  \<comment> \<open>the second loop, in the same way\<close>
  "barbs 0 headX headY dirX dirY currentOffset = ([], currentOffset)"
| "barbs (Suc n) headX headY dirX dirY currentOffset =
     (let baseX = headX - dirX * currentOffset;
          baseY = headY - dirY * currentOffset;
          endX = baseX + (- dirY) * 7;
          endY = baseY + dirX * 7;
          (rest, offset') = barbs n headX headY dirX dirY (currentOffset + 4)
      in ([BeginPath, MoveTo baseX baseY, LineTo endX endY, Stroke] @ rest, offset'))"

definition half_barb :: "real \<Rightarrow> real \<Rightarrow> real \<Rightarrow> real \<Rightarrow> real \<Rightarrow> canvas_op list" where
  \<comment> \<open>\<open>halfBarbLength\<close> is 7 * 0.5\<close>
  "half_barb headX headY dirX dirY currentOffset =
     (let baseX = headX - dirX * currentOffset;
          baseY = headY - dirY * currentOffset;
          endX = baseX + (- dirY) * (7 * (1 / 2));
          endY = baseY + dirX * (7 * (1 / 2))
      in [BeginPath, MoveTo baseX baseY, LineTo endX endY, Stroke])"

definition drawWindBarb :: "real \<Rightarrow> real \<Rightarrow> real \<Rightarrow> real \<Rightarrow> real \<Rightarrow> canvas_op list" where
  "drawWindBarb MS_TO_KN x y u v =
     (let speedKts = sqrt (u * u + v * v) * MS_TO_KN in
      if speedKts < 2 then [BeginPath, Arc x y 3 0 (pi * 2), Stroke]
      else
        let speedKts' = speedKts + 5 / 2;
            mag = sqrt (u * u + v * v)
        in if mag < 1 / 2 then []
           else
             let dirX = - u / mag;
                 dirY = v / mag;
                 tailX = x - dirX * 9;
                 tailY = y - dirY * 9;
                 headX = x + dirX * 9;
                 headY = y + dirY * 9;
                 (n50, n10, has5) = barb_counts speedKts';
                 (flags50, offset50) = pennants (nat n50) headX headY dirX dirY 0;
                 (flags10, offset10) = barbs (nat n10) headX headY dirX dirY offset50
             in [BeginPath, MoveTo tailX tailY, LineTo headX headY, Stroke]
                @ flags50 @ flags10
                @ (if has5 \<noteq> 0 then half_barb headX headY dirX dirY offset10 else []))"

text \<open>
  A response of 24 bytes, the floats with bit patterns 1 to 6, announced as u, v and
  gust, and the field decoded from it on a grid of one step, one latitude and two
  longitudes.
\<close>

definition uvg_response :: dump_response where
  "uvg_response = \<lparr> dump_ok = True, dump_status = 200, x_shortnames = Some ''uvg'',
      dump_body = [1, 0, 0, 0, 2, 0, 0, 0, 3, 0, 0, 0, 4, 0, 0, 0, 5, 0, 0, 0, 6, 0, 0, 0] \<rparr>"

definition uvg_field :: GribField where
  "uvg_field = \<lparr> fld_values = [1, 2, 3, 4, 5, 6], fld_nLat = 1, fld_nLon = 2, fld_nTime = 1,
           fld_nShortName = 3, fld_shortnames = ''uvg'' \<rparr>"

definition attached :: "player \<Rightarrow> RouteData \<Rightarrow> bool" where
  \<comment> \<open>the route \<open>r\<close> is attached and the index is one of its positions\<close>
  "attached s r = (p_route s = Some r \<and> p_k s \<in> \<int> \<and> 0 \<le> p_k s \<and> p_k s \<le> last_index r)"

text \<open>
  Two forecasts of the server: GFS, two steps on a 1 x 1 grid, which the example
  response matches, and ECMWF, one step, which it does not; the arguments of the calls
  that ask for them by model, or for GFS by file name; and the world after GFS has
  been loaded into the initial world.
\<close>

definition gfs_args :: load_args where
  "gfs_args = \<lparr> arg_model = ''GFS'', arg_gribName = [], arg_onlyUV = False \<rparr>"

definition gfs_meta :: GribMeta where
  "gfs_meta = (steps_meta 0 [0, 3])\<lparr> nShortName := 3 \<rparr>"

definition gfs_meta_response :: meta_response where
  "gfs_meta_response = \<lparr> meta_ok = True, meta_status = 200, meta_body = MetaJson gfs_meta \<rparr>"

definition ecmwf_args :: load_args where
  "ecmwf_args = \<lparr> arg_model = ''ECMWF'', arg_gribName = [], arg_onlyUV = False \<rparr>"

definition ecmwf_meta :: GribMeta where
  "ecmwf_meta = (steps_meta 0 [0])\<lparr> nShortName := 3, name := ''ecmwf.grb'' \<rparr>"

definition ecmwf_meta_response :: meta_response where
  "ecmwf_meta_response = \<lparr> meta_ok = True, meta_status = 200, meta_body = MetaJson ecmwf_meta \<rparr>"

definition gfs_field :: GribField where
  "gfs_field = \<lparr> fld_values = [1, 2, 3, 4, 5, 6], fld_nLat = 1, fld_nLon = 1, fld_nTime = 2,
           fld_nShortName = 3, fld_shortnames = ''uvg'' \<rparr>"

definition gfs_world :: world where
  "gfs_world =
     \<lparr> heap = [MetaObj gfs_meta, EmptyObj, FieldObj gfs_field], dataGrib = 2,
       gribCache = \<lparr> cache_key = Some ''GFS/gfs.grb?onlyUV=0'', cache_meta = Ref 0,
                     cache_field = Ref 2, cache_loading = False \<rparr>,
       fetches = 2 \<rparr>"

definition gfs_route_args :: load_args where
  "gfs_route_args = \<lparr> arg_model = ''GFS'', arg_gribName = ''gfs.grb'', arg_onlyUV = False \<rparr>"

text \<open>
  At most one load is in flight, and the flag \<open>loading\<close> tells whether one is; a run
  without a forced reload while a load is in flight.
\<close>

definition one_load :: "system \<Rightarrow> bool" where
  "one_load s = (length (inflight s) \<le> 1
     \<and> (cache_loading (gribCache (sys_world s)) = (inflight s \<noteq> [])))"

fun no_force_in_progress :: "system \<Rightarrow> event list \<Rightarrow> bool" where
  "no_force_in_progress s [] = True"
| "no_force_in_progress s (ev # evs) =
     ((if is_force ev then inflight s = [] else True) \<and> no_force_in_progress (step_event s ev) evs)"

section \<open>Properties of the time index resolution\<close>

lemma js_index_nat: "i < length xs \<Longrightarrow> js_index xs (int i) = Some (xs ! i)"
  by (simp add: js_index_def)

lemma loop_skip:
  assumes "k < length ts" "ts ! k < d"
  shows "findTimeAround_loop ts (int (length ts)) d (int k) =
         findTimeAround_loop ts (int (length ts)) d (int (Suc k))"
proof -
  have "findTimeAround_loop ts (int (length ts)) d (int k) =
        findTimeAround_loop ts (int (length ts)) d (int k + 1)"
    using assms
    by (subst findTimeAround_loop.simps) (simp add: js_index_nat js_eq_def js_lt_def)
  moreover have "int k + 1 = int (Suc k)" by simp
  ultimately show ?thesis by (simp only:)
qed

lemma loop_hit:
  assumes "k < length ts" "d = ts ! k"
  shows "findTimeAround_loop ts (int (length ts)) d (int k) = (int k, int k)"
  using assms by (subst findTimeAround_loop.simps) (simp add: js_index_nat js_eq_def)

lemma loop_over:
  assumes "k < length ts" "d < ts ! k"
  shows "findTimeAround_loop ts (int (length ts)) d (int k) = (int k - 1, int k)"
  using assms by (subst findTimeAround_loop.simps) (simp add: js_index_nat js_eq_def js_lt_def)

lemma loop_end:
  "findTimeAround_loop ts (int (length ts)) d (int (length ts)) = (int (length ts) - 1, int (length ts) - 1)"
  by (subst findTimeAround_loop.simps) simp

lemma loop_exact:
  assumes "sorted_wrt (<) ts" "i < length ts" "k \<le> i"
  shows "findTimeAround_loop ts (int (length ts)) (ts ! i) (int k) = (int i, int i)"
  using assms
proof (induction "i - k" arbitrary: k)
  case 0
  then show ?case by (simp add: loop_hit)
next
  case (Suc n)
  then have lt: "k < i" by simp
  then have "ts ! k < ts ! i"
    using Suc.prems by (simp add: sorted_wrt_nth_less)
  then have "findTimeAround_loop ts (int (length ts)) (ts ! i) (int k) =
             findTimeAround_loop ts (int (length ts)) (ts ! i) (int (Suc k))"
    using lt Suc.prems by (intro loop_skip) auto
  also have "\<dots> = (int i, int i)"
    using Suc lt by (intro Suc.hyps) auto
  finally show ?case .
qed

lemma loop_between:
  assumes "sorted_wrt (<) ts" "Suc i < length ts" "ts ! i < d" "d < ts ! Suc i" "k \<le> Suc i"
  shows "findTimeAround_loop ts (int (length ts)) d (int k) = (int i, int (Suc i))"
  using assms
proof (induction "Suc i - k" arbitrary: k)
  case 0
  then have "k = Suc i" by simp
  then show ?case using 0 loop_over [of "Suc i" ts d] by simp
next
  case (Suc n)
  then have lt: "k \<le> i" by simp
  then have "ts ! k \<le> ts ! i"
    using Suc.prems by (cases "k = i") (auto simp: sorted_wrt_nth_less less_imp_le)
  then have "ts ! k < d" using Suc.prems by simp
  then have "findTimeAround_loop ts (int (length ts)) d (int k) =
             findTimeAround_loop ts (int (length ts)) d (int (Suc k))"
    using lt Suc.prems by (intro loop_skip) auto
  also have "\<dots> = (int i, int (Suc i))"
    using Suc lt by (intro Suc.hyps) auto
  finally show ?case .
qed

lemma loop_beyond:
  assumes "sorted_wrt (<) ts" "ts \<noteq> []" "last ts < d" "k \<le> length ts"
  shows "findTimeAround_loop ts (int (length ts)) d (int k) = (int (length ts) - 1, int (length ts) - 1)"
  using assms
proof (induction "length ts - k" arbitrary: k)
  case 0
  then have "k = length ts" by simp
  then show ?case using loop_end [of ts d] by simp
next
  case (Suc n)
  then have lt: "k < length ts" by simp
  then have "ts ! k \<le> last ts"
    using Suc.prems by (cases "k = length ts - 1") (auto simp: sorted_wrt_nth_less less_imp_le last_conv_nth)
  then have "ts ! k < d" using Suc.prems by simp
  then have "findTimeAround_loop ts (int (length ts)) d (int k) =
             findTimeAround_loop ts (int (length ts)) d (int (Suc k))"
    using lt by (intro loop_skip) auto
  also have "\<dots> = (int (length ts) - 1, int (length ts) - 1)"
    using Suc lt by (intro Suc.hyps) auto
  finally show ?case .
qed

subsection \<open>The two candidates\<close>

lemma findTimeAround_before:
  assumes "ts \<noteq> []" "timeStamps m = ts" "x < ts ! 0"
  shows "findTimeAround m (Finite x) = (0, 0)"
  using assms by (simp add: findTimeAround_def js_index_def js_lt_def)

lemma findTimeAround_from_start:
  assumes "ts \<noteq> []" "timeStamps m = ts" "nTimeStamp m = int (length ts)" "ts ! 0 \<le> x"
  shows "findTimeAround m (Finite x) = findTimeAround_loop ts (int (length ts)) x (int 0)"
  using assms by (simp add: findTimeAround_def js_index_def js_lt_def)

lemma choose_same:
  assumes "diffHours m e = d" "findTimeAround m d = (j, j)"
  shows "getGribTimeIndexFromEpoch m e = j"
  using assms by (simp add: getGribTimeIndexFromEpoch_def Let_def)

lemma choose_between:
  assumes "diffHours m e = Finite x" "findTimeAround m (Finite x) = (int i, int (Suc i))"
    "timeStamps m = ts" "Suc i < length ts"
  shows "getGribTimeIndexFromEpoch m e =
           (if js_less (to_double (ts ! Suc i - x)) (to_double (x - ts ! i))
            then int (Suc i) else int i)"
proof -
  have "js_index ts (int i) = Some (ts ! i)" "js_index ts (int (Suc i)) = Some (ts ! Suc i)"
    using assms(4) by (simp_all add: js_index_nat del: of_nat_Suc)
  then show ?thesis
    using assms(1-3)
    by (simp add: getGribTimeIndexFromEpoch_def js_number_def del: of_nat_Suc)
qed

subsection \<open>Rounding is monotone\<close>

lemma round_even_bounds: "\<lfloor>y\<rfloor> \<le> round_even y" "round_even y \<le> \<lfloor>y\<rfloor> + 1"
  by (simp_all add: round_even_def Let_def)

lemma round_even_of_int [simp]: "round_even (of_int n) = n"
  by (simp add: round_even_def)

lemma round_even_mono:
  assumes "y \<le> z"
  shows "round_even y \<le> round_even z"
proof (cases "\<lfloor>y\<rfloor> = \<lfloor>z\<rfloor>")
  case True
  have "y - of_int \<lfloor>z\<rfloor> \<le> z - of_int \<lfloor>z\<rfloor>" using assms by simp
  then show ?thesis using True
    by (auto simp: round_even_def Let_def)
next
  case False
  have "\<lfloor>y\<rfloor> \<le> \<lfloor>z\<rfloor>" using assms by (rule floor_mono)
  then have "\<lfloor>y\<rfloor> + 1 \<le> \<lfloor>z\<rfloor>" using False by simp
  then show ?thesis
    using round_even_bounds(2) [of y] round_even_bounds(1) [of z] by linarith
qed

lemma round_even_ge: "of_int n \<le> y \<Longrightarrow> n \<le> round_even y"
  using round_even_mono [of "of_int n" y] by simp

lemma round_even_le: "y \<le> of_int n \<Longrightarrow> round_even y \<le> n"
  using round_even_mono [of y "of_int n"] by simp

lemma expo_bounds:
  assumes "0 < x"
  shows "2 powi expo x \<le> x" and "x < 2 powi (expo x + 1)"
proof -
  have "2 powi expo x \<le> x \<and> x < 2 powi (expo x + 1)"
  proof (cases "1 \<le> x")
    case True
    define n where "n = \<lfloor>x\<rfloor>"
    have n: "1 \<le> n" using True by (simp add: n_def)
    then have b: "2 ^ nat (bitlen n - 1) \<le> n" "n < 2 ^ nat (bitlen n)"
      using bitlen_bounds [of n] by simp_all
    have bl: "1 \<le> bitlen n" using n by (simp add: bitlen_ge_iff_power)
    have e: "expo x = bitlen n - 1" using True by (simp add: expo_def n_def)
    have "(2::rat) powi (bitlen n - 1) = 2 ^ nat (bitlen n - 1)"
      using bl by (simp add: power_int_nonneg_exp)
    also have "\<dots> = of_int (2 ^ nat (bitlen n - 1))" by simp
    also have "\<dots> \<le> of_int n" using b(1) by (simp only: of_int_le_iff)
    also have "\<dots> \<le> x" by (simp add: n_def)
    finally have lo: "2 powi expo x \<le> x" by (simp add: e)
    have "x < of_int (n + 1)" using floor_correct [of x] by (simp add: n_def)
    also have "\<dots> \<le> of_int (2 ^ nat (bitlen n))"
      using b(2) by (simp only: of_int_le_iff)
    also have "\<dots> = (2::rat) ^ nat (bitlen n)" by simp
    also have "\<dots> = 2 powi (bitlen n)"
      using bl by (simp add: power_int_nonneg_exp)
    finally have "x < 2 powi (expo x + 1)" by (simp add: e)
    with lo show ?thesis by simp
  next
    case False
    define c where "c = \<lceil>1 / x\<rceil>"
    define k where "k = bitlen (c - 1)"
    have y: "1 < 1 / x" using False assms by simp
    then have "1 < c" by (simp add: c_def less_ceiling_iff)
    then have c1: "1 \<le> c - 1" by simp
    then have b: "2 ^ nat (k - 1) \<le> c - 1" "c - 1 < 2 ^ nat k"
      using bitlen_bounds [of "c - 1"] by (simp_all add: k_def)
    have k1: "1 \<le> k" using c1 by (simp add: k_def bitlen_ge_iff_power)
    have e: "expo x = - k" using False by (simp add: expo_def k_def c_def)
    have "1 / x \<le> of_int c" by (simp add: c_def)
    also have "\<dots> \<le> of_int (2 ^ nat k)"
      using b(2) by (simp only: of_int_le_iff)
    also have "\<dots> = (2::rat) powi k"
      using k1 by (simp add: power_int_nonneg_exp)
    finally have "1 / x \<le> 2 powi k" .
    then have "1 \<le> 2 powi k * x"
      using assms by (simp add: field_simps)
    then have "1 / 2 powi k \<le> x"
      by (simp add: field_simps)
    then have lo: "2 powi expo x \<le> x"
      by (simp add: e power_int_minus_divide)
    have "(2::rat) powi (k - 1) = of_int (2 ^ nat (k - 1))"
      using k1 by (simp add: power_int_nonneg_exp)
    also have "\<dots> \<le> of_int (c - 1)" using b(1) by (simp only: of_int_le_iff)
    also have "\<dots> < 1 / x"
      using ceiling_correct [of "1 / x"] by (simp add: c_def)
    finally have "2 powi (k - 1) < 1 / x" .
    then have "2 powi (k - 1) * x < 1"
      using assms by (simp add: field_simps)
    then have "x < 1 / 2 powi (k - 1)"
      by (simp add: field_simps)
    also have "\<dots> = 2 powi (- (k - 1))"
      by (rule power_int_minus_divide [symmetric])
    finally have "x < 2 powi (expo x + 1)" by (simp add: e)
    with lo show ?thesis by simp
  qed
  then show "2 powi expo x \<le> x" and "x < 2 powi (expo x + 1)" by simp_all
qed


lemma pow2_less_imp_less:
  assumes "(2::rat) powi m < 2 powi n"
  shows "m < n"
proof (rule ccontr)
  assume "\<not> m < n"
  then have "(2::rat) powi n \<le> 2 powi m"
    by (intro power_int_increasing) simp_all
  with assms show False by simp
qed

lemma expo_mono:
  assumes "0 < a" "a \<le> b"
  shows "expo a \<le> expo b"
proof -
  have "(2::rat) powi expo a \<le> a" using assms(1) by (rule expo_bounds)
  also have "a \<le> b" by fact
  also have "b < 2 powi (expo b + 1)" using assms by (intro expo_bounds) simp
  finally have "(2::rat) powi expo a < 2 powi (expo b + 1)" .
  then have "expo a < expo b + 1"
    by (rule pow2_less_imp_less)
  then show ?thesis by simp
qed


lemma pow2_split: "(2::rat) powi (m + n) = 2 powi m * 2 powi n"
  by (simp add: power_int_add)

lemma pow2_53: "(2::rat) powi (e + 1) = 2 powi 53 * 2 powi (e - 52)"
proof -
  have "e + 1 = 53 + (e - 52)" by simp
  then show ?thesis by (simp only: pow2_split)
qed

lemma pow2_52: "(2::rat) powi e = 2 powi 52 * 2 powi (e - 52)"
proof -
  have "e = 52 + (e - 52)" by simp
  then show ?thesis using pow2_split [of 52 "e - 52"] by simp
qed

lemma quantum_pos: "0 < quantum x"
  by (simp add: quantum_def)

lemma round_magnitude_nonneg: "0 \<le> x \<Longrightarrow> 0 \<le> round_magnitude x"
  using round_even_ge [of 0 "x / quantum x"] quantum_pos [of x]
  by (simp add: round_magnitude_def)

lemma round_magnitude_mono:
  assumes "0 < a" "a \<le> b"
  shows "round_magnitude a \<le> round_magnitude b"
proof -
  define ea where "ea = max (expo a) (- 1022)"
  define eb where "eb = max (expo b) (- 1022)"
  have qa: "quantum a = 2 powi (ea - 52)" and qb: "quantum b = 2 powi (eb - 52)"
    by (simp_all add: quantum_def ea_def eb_def)
  have le: "ea \<le> eb"
    using expo_mono [OF assms] by (simp add: ea_def eb_def)
  show ?thesis
  proof (cases "ea = eb")
    case True
    then have q: "quantum a = quantum b" by (simp add: qa qb)
    have "a / quantum b \<le> b / quantum b"
      using assms quantum_pos [of b] by (simp add: divide_right_mono)
    then have "round_even (a / quantum b) \<le> round_even (b / quantum b)"
      by (rule round_even_mono)
    then have "rat_of_int (round_even (a / quantum b)) \<le> of_int (round_even (b / quantum b))"
      by (simp only: of_int_le_iff)
    then show ?thesis
      using quantum_pos [of b] by (simp add: round_magnitude_def q mult_right_mono)
  next
    case False
    then have lt: "ea + 1 \<le> eb" using le by simp
    then have eb: "eb = expo b" and "- 1022 < eb"
      by (simp_all add: eb_def ea_def)
    have b0: "0 < b" using assms by simp
    have "a < 2 powi (expo a + 1)" using assms(1) by (rule expo_bounds)
    also have "\<dots> \<le> 2 powi (ea + 1)"
      by (intro power_int_increasing) (simp_all add: ea_def)
    finally have "a < 2 powi (ea + 1)" .
    moreover have "(2::rat) powi (ea + 1) = 2 powi 53 * 2 powi (ea - 52)"
      by (rule pow2_53)
    ultimately have "a / quantum a \<le> 2 powi 53"
      using quantum_pos [of a] by (simp add: qa field_simps)
    then have "a / quantum a \<le> of_int (2 ^ 53)" by simp
    then have "round_even (a / quantum a) \<le> 2 ^ 53" by (rule round_even_le)
    then have "rat_of_int (round_even (a / quantum a)) \<le> of_int (2 ^ 53)"
      by (simp only: of_int_le_iff)
    then have "round_magnitude a \<le> of_int (2 ^ 53) * quantum a"
      unfolding round_magnitude_def using quantum_pos [of a] by (rule mult_right_mono [OF _ less_imp_le])
    also have "\<dots> = 2 powi 53 * 2 powi (ea - 52)" by (simp add: qa)
    also have "\<dots> = 2 powi (ea + 1)" by (rule pow2_53 [symmetric])
    also have "\<dots> \<le> 2 powi eb" using lt by (intro power_int_increasing) simp_all
    finally have up: "round_magnitude a \<le> 2 powi eb" .
    have "(2::rat) powi eb \<le> b" using expo_bounds(1) [OF b0] by (simp add: eb)
    moreover have "(2::rat) powi eb = 2 powi 52 * 2 powi (eb - 52)"
      by (rule pow2_52)
    ultimately have "2 powi 52 \<le> b / quantum b"
      using quantum_pos [of b] by (simp add: qb field_simps)
    then have "of_int (2 ^ 52) \<le> b / quantum b" by simp
    then have "2 ^ 52 \<le> round_even (b / quantum b)" by (rule round_even_ge)
    then have "rat_of_int (2 ^ 52) \<le> of_int (round_even (b / quantum b))"
      by (simp only: of_int_le_iff)
    then have "of_int (2 ^ 52) * quantum b \<le> round_magnitude b"
      unfolding round_magnitude_def using quantum_pos [of b] by (rule mult_right_mono [OF _ less_imp_le])
    moreover have "of_int (2 ^ 52) * quantum b = 2 powi 52 * 2 powi (eb - 52)" by (simp add: qb)
    moreover have "\<dots> = 2 powi eb" by (rule pow2_52 [symmetric])
    ultimately have "2 powi eb \<le> round_magnitude b" by simp
    with up show ?thesis by simp
  qed
qed


lemma to_double_pos:
  "0 < x \<Longrightarrow> to_double x =
     (if 2 powi 1024 \<le> round_magnitude x then PosInf else Finite (round_magnitude x))"
  by (simp add: to_double_def Let_def)

lemma to_double_neg:
  "x < 0 \<Longrightarrow> to_double x =
     (if 2 powi 1024 \<le> round_magnitude (- x) then NegInf else Finite (- round_magnitude (- x)))"
  by (simp add: to_double_def Let_def)

lemma to_double_not_NaN: "to_double x \<noteq> NaN"
  by (simp add: to_double_def Let_def)

lemma to_double_mono:
  assumes "a \<le> b"
  shows "\<not> js_less (to_double b) (to_double a)"
proof -
  consider "0 < a" | "a = 0" | "a < 0" "0 \<le> b" | "b < 0" using assms by linarith
  then show ?thesis
  proof cases
    case 1
    then have b: "0 < b" using assms by simp
    have "round_magnitude a \<le> round_magnitude b" using 1 assms by (rule round_magnitude_mono)
    then show ?thesis by (simp add: to_double_pos 1 b)
  next
    case 2
    then show ?thesis
    proof (cases "b = 0")
      case True
      with 2 show ?thesis by (simp add: to_double_def)
    next
      case False
      then have b: "0 < b" using 2 assms by simp
      have "0 \<le> round_magnitude b" using b by (intro round_magnitude_nonneg) simp
      then show ?thesis using 2 by (simp add: to_double_pos b) (simp add: to_double_def)
    qed
  next
    case 3
    have na: "0 \<le> round_magnitude (- a)" using 3 by (intro round_magnitude_nonneg) simp
    have nb: "0 \<le> round_magnitude b" using 3 by (intro round_magnitude_nonneg)
    show ?thesis
    proof (cases "b = 0")
      case True
      then show ?thesis using na 3 by (simp add: to_double_neg) (simp add: to_double_def)
    next
      case False
      then have b: "0 < b" using 3 by simp
      show ?thesis using na nb by (simp add: to_double_neg 3 to_double_pos b)
    qed
  next
    case 4
    then have a: "a < 0" using assms by simp
    have "round_magnitude (- b) \<le> round_magnitude (- a)"
      using 4 assms by (intro round_magnitude_mono) simp_all
    then show ?thesis by (simp add: to_double_neg 4 a)
  qed
qed

lemma js_less_to_double_imp_less:
  "js_less (to_double a) (to_double b) \<Longrightarrow> a < b"
  using to_double_mono [of b a] by (cases "a < b") simp_all

lemma js_less_total:
  "x \<noteq> NaN \<Longrightarrow> y \<noteq> NaN \<Longrightarrow> x \<noteq> y \<Longrightarrow> js_less x y \<or> js_less y x"
  by (cases x; cases y) auto

lemma less_imp_js_less_to_double:
  assumes "a < b" "to_double a \<noteq> to_double b"
  shows "js_less (to_double a) (to_double b)"
  using js_less_total [OF to_double_not_NaN to_double_not_NaN assms(2)]
    to_double_mono [of a b] assms(1) by simp

lemma expo_unique:
  assumes "2 powi e \<le> x" "x < 2 powi (e + 1)"
  shows "expo x = e"
proof -
  have x: "0 < x" using assms(1) by (rule less_le_trans [rotated]) simp
  have "(2::rat) powi e < 2 powi (expo x + 1)"
    using assms(1) expo_bounds(2) [OF x] by simp
  then have 1: "e < expo x + 1" by (rule pow2_less_imp_less)
  have "(2::rat) powi expo x < 2 powi (e + 1)"
    using assms(2) expo_bounds(1) [OF x] by simp
  then have "expo x < e + 1" by (rule pow2_less_imp_less)
  with 1 show ?thesis by simp
qed

lemma to_double_exact:
  assumes "2 powi e \<le> x" "x < 2 powi (e + 1)" "- 1022 \<le> e" "e \<le> 1023"
    "x = of_int n * 2 powi (e - 52)"
  shows "to_double x = Finite x"
proof -
  have x: "0 < x" using assms(1) by (rule less_le_trans [rotated]) simp
  have e: "expo x = e" using assms(1,2) by (rule expo_unique)
  have q: "quantum x = 2 powi (e - 52)" using assms(3) by (simp add: quantum_def e)
  have "x / 2 powi (e - 52) = of_int n" unfolding assms(5) by simp
  then have "round_magnitude x = of_int n * 2 powi (e - 52)"
    by (simp add: round_magnitude_def q)
  then have r: "round_magnitude x = x" by (simp only: assms(5) [symmetric])
  have "x < 2 powi (e + 1)" by fact
  also have "\<dots> \<le> 2 powi 1024" using assms(4) by (intro power_int_increasing) simp_all
  finally have "\<not> 2 powi 1024 \<le> x" by simp
  then show ?thesis by (simp only: to_double_pos [OF x] r if_False)
qed

lemma to_double_small:
  "to_double 18000 = Finite 18000" "to_double 16200 = Finite 16200"
  "to_double 14400 = Finite 14400"
  "to_double 5 = Finite 5" "to_double (9 / 2) = Finite (9 / 2)" "to_double 4 = Finite 4"
  "to_double (3 / 2) = Finite (3 / 2)" "to_double 2 = Finite 2" "to_double 1 = Finite 1"
proof -
  show "to_double 18000 = Finite 18000"
    by (rule to_double_exact [of 14 _ "18000 * 2 ^ 38"]) simp_all
  show "to_double 16200 = Finite 16200"
    by (rule to_double_exact [of 13 _ "16200 * 2 ^ 39"]) simp_all
  show "to_double 14400 = Finite 14400"
    by (rule to_double_exact [of 13 _ "14400 * 2 ^ 39"]) simp_all
  show "to_double 5 = Finite 5"
    by (rule to_double_exact [of 2 _ "5 * 2 ^ 50"]) simp_all
  show "to_double (9 / 2) = Finite (9 / 2)"
    by (rule to_double_exact [of 2 _ "9 * 2 ^ 49"]) simp_all
  show "to_double 4 = Finite 4"
    by (rule to_double_exact [of 2 _ "2 ^ 52"]) simp_all
  show "to_double (3 / 2) = Finite (3 / 2)"
    by (rule to_double_exact [of 0 _ "3 * 2 ^ 51"]) simp_all
  show "to_double 2 = Finite 2"
    by (rule to_double_exact [of 1 _ "2 ^ 52"]) simp_all
  show "to_double 1 = Finite 1"
    by (rule to_double_exact [of 0 _ "2 ^ 52"]) simp_all
qed

subsection \<open>The resolved index\<close>

text \<open>
  C1, as the code has it.  For a metadata object whose steps are strictly increasing
  (and not empty, \<open>nTimeStamp\<close> being their number) and a target that is finite, the
  target being the double \<open>(currentEpoch - epochStart) / 3600\<close>, the index resolved is 0
  when the target is at or before the first step, the last index when it is at or
  after the last step, and the index of a step the target is equal to.  Between two
  consecutive steps it is one of their two indices: the earlier one whenever the
  earlier step is at least as close to the target, so that a tie goes to the earlier
  index, and the later one only when the later step is strictly closer, and always
  then unless the two distances round to the same double.  Steps \<open>[0, 3, 6, 9]\<close> and a
  target of 4 hours give index 1.
\<close>

theorem getGribTimeIndexFromEpoch_nearest:
  assumes "sorted_wrt (<) (timeStamps m)" "timeStamps m \<noteq> []"
    "nTimeStamp m = int (length (timeStamps m))"
    and "diffHours m e = Finite x"
  shows "(x \<le> timeStamps m ! 0 \<longrightarrow> getGribTimeIndexFromEpoch m e = 0)
    \<and> (last (timeStamps m) \<le> x \<longrightarrow>
         getGribTimeIndexFromEpoch m e = int (length (timeStamps m)) - 1)
    \<and> (\<forall>i < length (timeStamps m). x = timeStamps m ! i \<longrightarrow>
         getGribTimeIndexFromEpoch m e = int i)
    \<and> (\<forall>i. Suc i < length (timeStamps m) \<and> timeStamps m ! i < x \<and> x < timeStamps m ! Suc i \<longrightarrow>
         (getGribTimeIndexFromEpoch m e = int i \<or> getGribTimeIndexFromEpoch m e = int (Suc i))
         \<and> (x - timeStamps m ! i \<le> timeStamps m ! Suc i - x \<longrightarrow>
              getGribTimeIndexFromEpoch m e = int i)
         \<and> (getGribTimeIndexFromEpoch m e = int (Suc i) \<longrightarrow>
              timeStamps m ! Suc i - x < x - timeStamps m ! i)
         \<and> (timeStamps m ! Suc i - x < x - timeStamps m ! i
              \<and> to_double (timeStamps m ! Suc i - x) \<noteq> to_double (x - timeStamps m ! i) \<longrightarrow>
              getGribTimeIndexFromEpoch m e = int (Suc i)))
    \<and> getGribTimeIndexFromEpoch (steps_meta E [0, 3, 6, 9]) (Finite (E + 4 * 3600)) = 1"
proof -
  define ts where "ts = timeStamps m"
  define r where "r = getGribTimeIndexFromEpoch m e"
  have srt: "sorted_wrt (<) ts" and ne: "ts \<noteq> []" and n: "nTimeStamp m = int (length ts)"
    and tm: "timeStamps m = ts"
    using assms by (simp_all add: ts_def)
  note d = assms(4)
  have len: "0 < length ts" using ne by simp
  have lm: "int (length ts - 1) = int (length ts) - 1"
    using len by (cases "length ts") simp_all
  have same: "r = j" if "findTimeAround m (Finite x) = (j, j)" for j
    unfolding r_def using d that by (rule choose_same)
  have exact: "r = int i" if "i < length ts" "x = ts ! i" for i
  proof -
    have "ts ! 0 \<le> ts ! i"
      using srt that by (cases "i = 0") (auto simp: sorted_wrt_nth_less less_imp_le)
    then have "findTimeAround m (Finite x) = findTimeAround_loop ts (int (length ts)) x (int 0)"
      using that by (intro findTimeAround_from_start ne tm n) simp
    also have "\<dots> = (int i, int i)"
      using loop_exact [OF srt that(1), of 0] that by simp
    finally show ?thesis by (rule same)
  qed
  have first: "r = 0" if "x \<le> ts ! 0"
  proof (cases "x = ts ! 0")
    case True
    then show ?thesis using exact [of 0] len by simp
  next
    case False
    then have "findTimeAround m (Finite x) = (0, 0)"
      using that by (intro findTimeAround_before [OF ne tm]) simp
    then show ?thesis by (rule same)
  qed
  have lastc: "r = int (length ts) - 1" if "last ts \<le> x"
  proof (cases "x = last ts")
    case True
    then have "r = int (length ts - 1)"
      using len ne by (intro exact) (simp_all add: last_conv_nth)
    then show ?thesis by (simp only: lm)
  next
    case False
    then have lt: "last ts < x" using that by simp
    have "ts ! 0 \<le> last ts"
      using srt len
      by (cases "length ts - 1 = 0") (auto simp: last_conv_nth ne sorted_wrt_nth_less less_imp_le)
    then have "findTimeAround m (Finite x) = findTimeAround_loop ts (int (length ts)) x (int 0)"
      using lt by (intro findTimeAround_from_start ne tm n) simp
    also have "\<dots> = (int (length ts) - 1, int (length ts) - 1)"
      by (intro loop_beyond srt ne lt) simp
    finally show ?thesis by (rule same)
  qed
  have between: "r = (if js_less (to_double (ts ! Suc i - x)) (to_double (x - ts ! i))
                      then int (Suc i) else int i)"
    if "Suc i < length ts" "ts ! i < x" "x < ts ! Suc i" for i
  proof -
    have "ts ! 0 \<le> ts ! i"
      using srt that by (cases "i = 0") (auto simp: sorted_wrt_nth_less less_imp_le)
    then have "findTimeAround m (Finite x) = findTimeAround_loop ts (int (length ts)) x (int 0)"
      using that by (intro findTimeAround_from_start ne tm n) simp
    also have "\<dots> = (int i, int (Suc i))"
      by (intro loop_between srt that) simp
    finally have "findTimeAround m (Finite x) = (int i, int (Suc i))" .
    with d show ?thesis
      unfolding r_def using tm that(1) by (rule choose_between)
  qed
  have straddle:
    "(r = int i \<or> r = int (Suc i))
     \<and> (x - ts ! i \<le> ts ! Suc i - x \<longrightarrow> r = int i)
     \<and> (r = int (Suc i) \<longrightarrow> ts ! Suc i - x < x - ts ! i)
     \<and> (ts ! Suc i - x < x - ts ! i \<and> to_double (ts ! Suc i - x) \<noteq> to_double (x - ts ! i)
          \<longrightarrow> r = int (Suc i))"
    if h: "Suc i < length ts \<and> ts ! i < x \<and> x < ts ! Suc i" for i
  proof (cases "js_less (to_double (ts ! Suc i - x)) (to_double (x - ts ! i))")
    case True
    then have "r = int (Suc i)" using between [of i] h by simp
    moreover have "ts ! Suc i - x < x - ts ! i"
      using True by (rule js_less_to_double_imp_less)
    ultimately show ?thesis by simp
  next
    case False
    then have ri: "r = int i" using between [of i] h by simp
    have "\<not> (ts ! Suc i - x < x - ts ! i
             \<and> to_double (ts ! Suc i - x) \<noteq> to_double (x - ts ! i))"
      using False less_imp_js_less_to_double by blast
    with ri show ?thesis by simp
  qed
  have ex: "getGribTimeIndexFromEpoch (steps_meta E [0, 3, 6, 9]) (Finite (E + 4 * 3600)) = 1"
  proof -
    have "diffHours (steps_meta E [0, 3, 6, 9]) (Finite (E + 4 * 3600)) = Finite 4"
      by (simp add: diffHours_def steps_meta_def js_divide_def to_double_small)
    then show ?thesis
      by (simp add: getGribTimeIndexFromEpoch_def findTimeAround_def steps_meta_def
          findTimeAround_loop.simps js_index_def js_lt_def js_eq_def js_number_def to_double_small)
  qed
  show ?thesis
    unfolding ts_def [symmetric] r_def [symmetric]
    using first lastc exact straddle ex [unfolded r_def] by blast
qed

text \<open>The theorem at steps \<open>[0, 3, 6, 9]\<close> and a target of 5 hours, closer to step 6.\<close>

theorem getGribTimeIndexFromEpoch_nearest_witness:
  "sorted_wrt (<) (timeStamps (steps_meta 0 [0, 3, 6, 9]))
   \<and> timeStamps (steps_meta 0 [0, 3, 6, 9]) \<noteq> []
   \<and> nTimeStamp (steps_meta 0 [0, 3, 6, 9]) = int (length (timeStamps (steps_meta 0 [0, 3, 6, 9])))
   \<and> diffHours (steps_meta 0 [0, 3, 6, 9]) (Finite 18000) = Finite 5
   \<and> getGribTimeIndexFromEpoch (steps_meta 0 [0, 3, 6, 9]) (Finite 18000) = 2"
proof -
  let ?m = "steps_meta 0 [0, 3, 6, 9]"
  have h1: "sorted_wrt (<) (timeStamps ?m)" by (simp add: steps_meta_def)
  have h2: "timeStamps ?m \<noteq> []" by (simp add: steps_meta_def)
  have h3: "nTimeStamp ?m = int (length (timeStamps ?m))" by (simp add: steps_meta_def)
  have h4: "diffHours ?m (Finite 18000) = Finite 5"
    by (simp add: diffHours_def steps_meta_def js_divide_def to_double_small)
  have ts: "timeStamps ?m = [0, 3, 6, 9]" by (simp add: steps_meta_def)
  have ne: "to_double (6 - 5) \<noteq> to_double (5 - 3)"
    by (simp add: to_double_small)
  from getGribTimeIndexFromEpoch_nearest [OF h1 h2 h3 h4, of 0]
  have "Suc 1 < length (timeStamps ?m) \<and> timeStamps ?m ! 1 < 5 \<and> 5 < timeStamps ?m ! Suc 1 \<longrightarrow>
      (timeStamps ?m ! Suc 1 - 5 < 5 - timeStamps ?m ! 1
         \<and> to_double (timeStamps ?m ! Suc 1 - 5) \<noteq> to_double (5 - timeStamps ?m ! 1) \<longrightarrow>
       getGribTimeIndexFromEpoch ?m (Finite 18000) = int (Suc 1))"
    by blast
  then have "getGribTimeIndexFromEpoch ?m (Finite 18000) = 2"
    unfolding ts using ne by simp
  then show ?thesis using h1 h2 h3 h4 by simp
qed

text \<open>
  C1 as it is written lets a tie go to the later index.  At 4.5 hours, as far from
  step 3 as from step 6, the code answers index 1, the earlier one.
\<close>

theorem getGribTimeIndexFromEpoch_tie_counterexample:
  "diffHours (steps_meta 0 [0, 3, 6, 9]) (Finite 16200) = Finite (9 / 2)
   \<and> (6 :: rat) - 9 / 2 = 9 / 2 - 3
   \<and> getGribTimeIndexFromEpoch (steps_meta 0 [0, 3, 6, 9]) (Finite 16200) = 1
   \<and> getGribTimeIndexFromEpoch (steps_meta 0 [0, 3, 6, 9]) (Finite 16200) \<noteq> 2"
proof -
  have d: "diffHours (steps_meta 0 [0, 3, 6, 9]) (Finite 16200) = Finite (9 / 2)"
    by (simp add: diffHours_def steps_meta_def js_divide_def to_double_small)
  have "getGribTimeIndexFromEpoch (steps_meta 0 [0, 3, 6, 9]) (Finite 16200) = 1"
    using d
    by (simp add: getGribTimeIndexFromEpoch_def findTimeAround_def steps_meta_def
        findTimeAround_loop.simps js_index_def js_lt_def js_eq_def js_number_def to_double_small)
  with d show ?thesis by simp
qed

text \<open>
  Rounding at work: the steps are the doubles of 0.1 and 1 and the epoch is 1980 seconds
  after the run start.  The target is the double of 0.55, which is above 11/20, and the
  first step is above 1/10 by less, so that the second step is the closer one.
\<close>

lemma getGribTimeIndexFromEpoch_rounded_target:
  "getGribTimeIndexFromEpoch
     (steps_meta 0 [3602879701896397 / 36028797018963968, 1]) (Finite 1980) = 1"
  by code_simp

section \<open>Properties of the field decoder\<close>

lemma length_float32s: "length (float32s bs) = length bs div 4"
  by (induction bs rule: float32s.induct) simp_all

lemma Float32Array_length:
  "Float32Array buf = Inr vals \<Longrightarrow> vals = float32s buf \<and> 4 * length vals = length buf"
  by (auto simp: Float32Array_def length_float32s split: if_splits)

lemma gribLoad_Inr:
  assumes "gribLoad res nTime nLat' nLon' nName = Inr f"
  shows "\<exists>s. x_shortnames res = Some s \<and> s \<noteq> [] \<and> dump_ok res
           \<and> fld_values f = float32s (dump_body res)
           \<and> 4 * length (fld_values f) = length (dump_body res)
           \<and> int (length (fld_values f)) = nTime * nLat' * nLon' * header_nShortName s
           \<and> fld_nLat f = nLat' \<and> fld_nLon f = nLon' \<and> fld_nTime f = nTime
           \<and> fld_nShortName f = header_nShortName s \<and> fld_shortnames f = s"
  using assms
  by (auto simp: gribLoad_def Let_def split: if_splits option.splits sum.splits
           dest!: Float32Array_length)

text \<open>
  C2.  Whenever the number of floats in the body differs from
  \<open>nTime * nLat * nLon * nShortName\<close>, with \<open>nShortName\<close> counted from the response's
  header, \<open>gribLoad\<close> ends in an error and returns no field; for a response that is
  otherwise in order the error is the size error, carrying both numbers.
\<close>

theorem gribLoad_size_mismatch:
  assumes "\<forall>s. x_shortnames res = Some s \<longrightarrow>
             int (length (dump_body res)) \<noteq> 4 * (nTime * nLat' * nLon' * header_nShortName s)"
  shows "(\<exists>e. gribLoad res nTime nLat' nLon' nName = Inl e)
       \<and> (\<forall>s. dump_ok res \<and> x_shortnames res = Some s \<and> s \<noteq> [] \<and> length (dump_body res) mod 4 = 0 \<longrightarrow>
            gribLoad res nTime nLat' nLon' nName =
              Inl (UnexpectedSize (int (length (dump_body res) div 4))
                                  (nTime * nLat' * nLon' * header_nShortName s)))"
proof (intro conjI allI impI)
  have "gribLoad res nTime nLat' nLon' nName \<noteq> Inr f" for f
  proof
    assume "gribLoad res nTime nLat' nLon' nName = Inr f"
    from gribLoad_Inr [OF this] obtain s where s: "x_shortnames res = Some s"
      and l: "4 * length (fld_values f) = length (dump_body res)"
      and e: "int (length (fld_values f)) = nTime * nLat' * nLon' * header_nShortName s"
      by blast
    from l have "int (length (dump_body res)) = 4 * int (length (fld_values f))"
      by linarith
    with e have "int (length (dump_body res)) = 4 * (nTime * nLat' * nLon' * header_nShortName s)"
      by simp
    with assms s show False by simp
  qed
  then show "\<exists>e. gribLoad res nTime nLat' nLon' nName = Inl e"
    by (cases "gribLoad res nTime nLat' nLon' nName") auto
next
  fix s
  assume h: "dump_ok res \<and> x_shortnames res = Some s \<and> s \<noteq> [] \<and> length (dump_body res) mod 4 = 0"
  then have "length (dump_body res) mod 4 = 0" by simp
  then have "length (dump_body res) = 4 * (length (dump_body res) div 4)"
    by presburger
  then have "int (length (dump_body res)) = 4 * int (length (dump_body res) div 4)"
    by linarith
  moreover have "int (length (dump_body res)) \<noteq> 4 * (nTime * nLat' * nLon' * header_nShortName s)"
    using assms h by simp
  ultimately have "int (length (dump_body res) div 4) \<noteq> nTime * nLat' * nLon' * header_nShortName s"
    by auto
  then show "gribLoad res nTime nLat' nLon' nName =
              Inl (UnexpectedSize (int (length (dump_body res) div 4))
                                  (nTime * nLat' * nLon' * header_nShortName s))"
    using h by (simp add: gribLoad_def Float32Array_def length_float32s)
qed

text \<open>Six floats where three are expected.\<close>

theorem gribLoad_size_mismatch_witness:
  "x_shortnames uvg_response = Some ''uvg''
   \<and> int (length (dump_body uvg_response)) \<noteq> 4 * (1 * 1 * 1 * header_nShortName ''uvg'')
   \<and> gribLoad uvg_response 1 1 1 3 = Inl (UnexpectedSize 6 3)"
proof -
  have h: "\<forall>s. x_shortnames uvg_response = Some s \<longrightarrow>
      int (length (dump_body uvg_response)) \<noteq> 4 * (1 * 1 * 1 * header_nShortName s)"
    by (simp add: uvg_response_def header_nShortName_def hasG_def hasW_def)
  have "gribLoad uvg_response 1 1 1 3 =
          Inl (UnexpectedSize (int (length (dump_body uvg_response) div 4))
                              (1 * 1 * 1 * header_nShortName ''uvg''))"
    by (rule gribLoad_size_mismatch [OF h, of 3, THEN conjunct2, THEN spec, THEN mp])
       (simp add: uvg_response_def)
  then have "gribLoad uvg_response 1 1 1 3 = Inl (UnexpectedSize 6 3)"
    by (simp add: uvg_response_def header_nShortName_def hasG_def hasW_def)
  then show ?thesis
    by (simp add: uvg_response_def header_nShortName_def hasG_def hasW_def)
qed

lemma header_nShortName_pos: "0 < header_nShortName s"
  by (simp add: header_nShortName_def)

lemma flat_offset_bounds:
  fixes t i j T L M c :: int
  assumes "0 \<le> t" "t < T" "0 \<le> i" "i < L" "0 \<le> j" "j < M" "0 < c"
  shows "0 \<le> ((t * L + i) * M + j) * c" and "((t * L + i) * M + j) * c + c \<le> T * L * M * c"
proof -
  have "(t + 1) * L \<le> T * L"
    using assms by (intro mult_right_mono) auto
  then have a: "t * L + i + 1 \<le> T * L"
    using assms by (simp add: algebra_simps)
  have a0: "0 \<le> t * L + i" using assms by simp
  have "(t * L + i + 1) * M \<le> (T * L) * M"
    using a assms by (intro mult_right_mono) auto
  then have b: "(t * L + i) * M + j + 1 \<le> T * L * M"
    using assms by (simp add: algebra_simps)
  have b0: "0 \<le> (t * L + i) * M + j" using a0 assms by simp
  show "0 \<le> ((t * L + i) * M + j) * c" using b0 assms by simp
  have "((t * L + i) * M + j + 1) * c \<le> (T * L * M) * c"
    using b assms by (intro mult_right_mono) auto
  then show "((t * L + i) * M + j) * c + c \<le> T * L * M * c"
    by (simp add: algebra_simps)
qed

text \<open>
  C3.  For dimensions and a body of exactly the matching length, \<open>gribLoad\<close> returns a
  field, and for every index triple in range \<open>getUVGW\<close> returns the floats stored from
  the flat offset \<open>((tIndex * nLat + iLat) * nLon + iLon) * nShortName\<close> on, all of them
  inside the buffer, with 0 for gust and wave when the header does not announce them.
\<close>

theorem getUVGW_exact:
  assumes "dump_ok res" "x_shortnames res = Some s" "s \<noteq> []"
    "int (length (dump_body res)) = 4 * (nTime * nLat' * nLon' * header_nShortName s)"
    "0 \<le> tIndex" "tIndex < nTime" "0 \<le> iLat" "iLat < nLat'" "0 \<le> iLon" "iLon < nLon'"
  shows "\<exists>f off. gribLoad res nTime nLat' nLon' nName = Inr f
     \<and> fld_values f = float32s (dump_body res)
     \<and> fld_nShortName f = header_nShortName s
     \<and> int off = ((tIndex * nLat' + iLat) * nLon' + iLon) * header_nShortName s
     \<and> indexOf f tIndex iLat iLon = int off
     \<and> off + nat (header_nShortName s) \<le> length (fld_values f)
     \<and> getUVGW f tIndex iLat iLon =
         \<lparr> uvgw_u = Some (fld_values f ! off),
           uvgw_v = Some (fld_values f ! (off + 1)),
           uvgw_g = (if hasG s then Some (fld_values f ! (off + 2)) else Some 0),
           uvgw_w = (if hasW s then Some (fld_values f ! (off + (if hasG s then 3 else 2)))
                     else Some 0) \<rparr>"
proof -
  define c where "c = header_nShortName s"
  define vals where "vals = float32s (dump_body res)"
  define f where "f = \<lparr> fld_values = vals, fld_nLat = nLat', fld_nLon = nLon',
                           fld_nTime = nTime, fld_nShortName = c, fld_shortnames = s \<rparr>"
  define ofs where "ofs = ((tIndex * nLat' + iLat) * nLon' + iLon) * c"
  have cpos: "0 < c" by (simp add: c_def header_nShortName_pos)
  have len4: "int (length (dump_body res)) = 4 * (nTime * nLat' * nLon' * c)"
    using assms(4) by (simp add: c_def)
  then have m4: "length (dump_body res) mod 4 = 0"
    by presburger
  have "length vals = length (dump_body res) div 4"
    by (simp add: vals_def length_float32s)
  then have "4 * int (length vals) = int (length (dump_body res))"
    using m4 by presburger
  then have len: "int (length vals) = nTime * nLat' * nLon' * c"
    using len4 by simp
  have load: "gribLoad res nTime nLat' nLon' nName = Inr f"
    using assms(1-3) m4 len
    by (simp add: gribLoad_def Float32Array_def f_def c_def vals_def)
  have ofs0: "0 \<le> ofs" and ofs1: "ofs + c \<le> int (length vals)"
    using flat_offset_bounds [OF assms(5-10) cpos] len by (simp_all add: ofs_def)
  have idx: "indexOf f tIndex iLat iLon = ofs"
    by (simp add: indexOf_def f_def ofs_def)
  have ofsnat: "int (nat ofs) = ofs" using ofs0 by simp
  have c2: "2 \<le> c" "c = (if hasG s then 3 else 2) + (if hasW s then 1 else 0)"
    by (simp_all add: c_def header_nShortName_def)
  have rd: "js_index vals (ofs + int d) = Some (vals ! (nat ofs + d))" if "int d < c" for d
  proof -
    have "ofs + int d < int (length vals)" using that ofs1 by linarith
    moreover have "nat (ofs + int d) = nat ofs + d" using ofs0 by (simp add: nat_add_distrib)
    ultimately show ?thesis using ofs0 by (simp add: js_index_def)
  qed
  have r0: "js_index vals ofs = Some (vals ! nat ofs)" using rd [of 0] c2 by simp
  have r1: "js_index vals (ofs + 1) = Some (vals ! (nat ofs + 1))" using rd [of 1] c2 by simp
  have r2: "js_index vals (ofs + 2) = Some (vals ! (nat ofs + 2))" if "hasG s"
    using rd [of 2] c2 that by simp
  have r3: "js_index vals (ofs + 3) = Some (vals ! (nat ofs + 3))" if "hasG s" "hasW s"
    using rd [of 3] c2 that by simp
  have r2w: "js_index vals (ofs + 2) = Some (vals ! (nat ofs + 2))" if "\<not> hasG s" "hasW s"
    using rd [of 2] c2 that by simp
  have get: "getUVGW f tIndex iLat iLon =
         \<lparr> uvgw_u = Some (vals ! nat ofs),
           uvgw_v = Some (vals ! (nat ofs + 1)),
           uvgw_g = (if hasG s then Some (vals ! (nat ofs + 2)) else Some 0),
           uvgw_w = (if hasW s then Some (vals ! (nat ofs + (if hasG s then 3 else 2)))
                     else Some 0) \<rparr>"
    unfolding getUVGW_def idx Let_def
    using r0 r1 r2 r3 r2w by (simp add: f_def)
  have bound: "nat ofs + nat c \<le> length vals"
    using ofs0 ofs1 cpos by linarith
  show ?thesis
    apply (rule exI [of _ f], rule exI [of _ "nat ofs"])
    using load get bound idx ofsnat
    by (simp add: f_def ofs_def c_def vals_def)
qed


lemma gribLoad_uvg_response: "gribLoad uvg_response 1 1 2 3 = Inr uvg_field"
  by (simp add: gribLoad_def uvg_response_def Float32Array_def header_nShortName_def
        hasG_def hasW_def le_float32_def uvg_field_def)

text \<open>The second cell of the example field starts at offset 3.\<close>

theorem getUVGW_exact_witness:
  "dump_ok uvg_response \<and> x_shortnames uvg_response = Some ''uvg'' \<and> ''uvg'' \<noteq> []
   \<and> int (length (dump_body uvg_response)) = 4 * (1 * 1 * 2 * header_nShortName ''uvg'')
   \<and> gribLoad uvg_response 1 1 2 3 = Inr uvg_field
   \<and> getUVGW uvg_field 0 0 1 =
        \<lparr> uvgw_u = Some 4, uvgw_v = Some 5, uvgw_g = Some 6, uvgw_w = Some 0 \<rparr>"
proof -
  have h1: "dump_ok uvg_response" and h2: "x_shortnames uvg_response = Some ''uvg''"
    and h3: "''uvg'' \<noteq> []"
    and h4: "int (length (dump_body uvg_response)) = 4 * (1 * 1 * 2 * header_nShortName ''uvg'')"
    by (simp_all add: uvg_response_def header_nShortName_def hasG_def hasW_def)
  have g: "hasG ''uvg''" and w: "\<not> hasW ''uvg''" and c: "header_nShortName ''uvg'' = 3"
    by (simp_all add: header_nShortName_def hasG_def hasW_def)
  from getUVGW_exact [OF h1 h2 h3 h4, of 0 0 1 3]
  obtain f off where f: "gribLoad uvg_response 1 1 2 3 = Inr f"
    and off: "int off = ((0 * 1 + 0) * 2 + 1) * header_nShortName ''uvg''"
    and get: "getUVGW f 0 0 1 =
         \<lparr> uvgw_u = Some (fld_values f ! off),
           uvgw_v = Some (fld_values f ! (off + 1)),
           uvgw_g = (if hasG ''uvg'' then Some (fld_values f ! (off + 2)) else Some 0),
           uvgw_w = (if hasW ''uvg'' then Some (fld_values f ! (off + (if hasG ''uvg'' then 3 else 2)))
                     else Some 0) \<rparr>"
    by auto
  have "f = uvg_field" using f by (simp add: gribLoad_uvg_response)
  moreover have "off = 3" using off c by simp
  ultimately have "getUVGW uvg_field 0 0 1 =
        \<lparr> uvgw_u = Some 4, uvgw_v = Some 5, uvgw_g = Some 6, uvgw_w = Some 0 \<rparr>"
    using get g w by (simp add: uvg_field_def)
  then show ?thesis using h1 h2 h3 h4 gribLoad_uvg_response by simp
qed

text \<open>
  C10.  \<open>getUVGW\<close> checks no bound and raises nothing: when the flat offset lies outside
  the buffer the component u is \<open>undefined\<close>, and when it lies at or after its end every
  component that is read is \<open>undefined\<close> (u, v, and gust and wave when announced).
\<close>

theorem getUVGW_out_of_range:
  "(\<not> (0 \<le> indexOf f tIndex iLat iLon \<and> indexOf f tIndex iLat iLon < int (length (fld_values f)))
      \<longrightarrow> uvgw_u (getUVGW f tIndex iLat iLon) = None)
   \<and> (int (length (fld_values f)) \<le> indexOf f tIndex iLat iLon \<longrightarrow>
        getUVGW f tIndex iLat iLon =
          \<lparr> uvgw_u = None, uvgw_v = None,
            uvgw_g = (if hasG (fld_shortnames f) then None else Some 0),
            uvgw_w = (if hasW (fld_shortnames f) then None else Some 0) \<rparr>)"
  by (auto simp: getUVGW_def Let_def js_index_def)

text \<open>One step too far in time, and one cell before the first, on the example field.\<close>

theorem getUVGW_out_of_range_witness:
  "indexOf uvg_field 1 0 0 = 6 \<and> int (length (fld_values uvg_field)) = 6
   \<and> getUVGW uvg_field 1 0 0 =
        \<lparr> uvgw_u = None, uvgw_v = None, uvgw_g = None, uvgw_w = Some 0 \<rparr>
   \<and> indexOf uvg_field 0 0 (- 1) = - 3
   \<and> uvgw_u (getUVGW uvg_field 0 0 (- 1)) = None"
proof -
  have i: "indexOf uvg_field 1 0 0 = 6" and l: "int (length (fld_values uvg_field)) = 6"
    and j: "indexOf uvg_field 0 0 (- 1) = - 3"
    by (simp_all add: indexOf_def uvg_field_def)
  have g: "hasG (fld_shortnames uvg_field)" and w: "\<not> hasW (fld_shortnames uvg_field)"
    by (simp_all add: uvg_field_def hasG_def hasW_def)
  have "getUVGW uvg_field 1 0 0 =
        \<lparr> uvgw_u = None, uvgw_v = None, uvgw_g = None, uvgw_w = Some 0 \<rparr>"
    using getUVGW_out_of_range [of uvg_field 1 0 0, THEN conjunct2] i l g w by simp
  moreover have "uvgw_u (getUVGW uvg_field 0 0 (- 1)) = None"
    using getUVGW_out_of_range [of uvg_field 0 0 "- 1", THEN conjunct1] j l by simp
  ultimately show ?thesis using i l j by simp
qed

section \<open>Properties of the playback controller\<close>

lemma update_keeps:
  "p_k (fst (update s)) = p_k s" "p_route (fst (update s)) = p_route s"
  "p_playing (fst (update s)) = p_playing s" "p_timer (fst (update s)) = p_timer s"
  by (simp_all add: update_def split: option.splits)

lemma pts_at_in_range:
  assumes "x \<in> \<int>" "0 \<le> x" "x \<le> last_index r"
  shows "\<exists>p. pts_at r x = Some p"
proof -
  from assms(1) obtain n where n: "x = of_int n" by (auto simp: Ints_def)
  have "0 \<le> n" using assms n by simp
  moreover have "rat_of_int n < of_int (int (length (pts r)))"
    using assms n by (simp add: last_index_def)
  then have "n < int (length (pts r))" by (simp only: of_int_less_iff)
  ultimately show ?thesis using n by (simp add: pts_at_def js_index_def)
qed

lemma update_ok:
  assumes "p_route s = Some r" "p_k s \<in> \<int>" "0 \<le> p_k s" "p_k s \<le> last_index r"
  shows "update s = (s\<lparr> wl_routeState :=
                      Some \<lparr> rs_t0Epoch = t0Epoch r, rs_dtRoute = dtRoute r, rs_k = p_k s \<rparr>,
                    wl_redraws := Suc (wl_redraws s) \<rparr>, None)"
proof -
  obtain p where "pts_at r (p_k s) = Some p"
    using pts_at_in_range [of "p_k s" r] assms by auto
  then show ?thesis using assms by (simp add: update_def)
qed

lemma last_index_Ints: "last_index r \<in> \<int>"
  by (simp add: last_index_def)

lemma last_index_nonneg: "pts r \<noteq> [] \<Longrightarrow> 0 \<le> last_index r"
  by (cases "pts r") (simp_all add: last_index_def)

lemma clamp_Ints:
  assumes "x \<in> \<int>" "pts r \<noteq> []"
  shows "max 0 (min (last_index r) x) \<in> \<int>" "0 \<le> max 0 (min (last_index r) x)"
    "max 0 (min (last_index r) x) \<le> last_index r"
  using assms last_index_Ints [of r] last_index_nonneg [of r]
  by (auto simp: max_def min_def)

lemma attached_in_range: "attached s r \<Longrightarrow> in_range s (length (pts r))"
  by (auto simp: attached_def in_range_def Ints_def last_index_def)

lemma attached_setRoute: "pts r \<noteq> [] \<Longrightarrow> attached (fst (setRoute s r)) r"
  by (simp add: attached_def setRoute_def update_keeps last_index_nonneg)

lemma attached_perform:
  assumes "attached s r" "pts r \<noteq> []" "integral_op op"
  shows "attached (perform s op) r"
proof (cases op)
  case (SetIndex x)
  then have "x \<in> \<int>" using assms(3) by (auto simp: Ints_def)
  then show ?thesis using assms SetIndex clamp_Ints [of x r]
    by (simp add: attached_def setIndex_def update_keeps)
next
  case (Step dir)
  then have "dir \<in> \<int>" using assms(3) by auto
  then have "p_k s + dir \<in> \<int>" using assms(1) by (simp add: attached_def)
  then show ?thesis using assms Step clamp_Ints [of "p_k s + dir" r]
    by (simp add: attached_def step_def update_keeps)
next
  case Tick
  show ?thesis
  proof (cases "p_k s \<ge> last_index r")
    case True
    then show ?thesis using assms Tick by (auto simp: attached_def tick_def stop_def)
  next
    case False
    have "p_k s + 1 \<in> \<int>" using assms(1) by (simp add: attached_def)
    moreover have "p_k s + 1 \<le> last_index r"
    proof -
      obtain a where a: "p_k s = of_int a" using assms(1) by (auto simp: attached_def Ints_def)
      have "rat_of_int a < of_int (int (length (pts r)) - 1)"
        using False a by (simp add: last_index_def)
      then have "a < int (length (pts r)) - 1" by (simp only: of_int_less_iff)
      then have "a + 1 \<le> int (length (pts r)) - 1" by simp
      then have "rat_of_int (a + 1) \<le> of_int (int (length (pts r)) - 1)"
        by (simp only: of_int_le_iff)
      then show ?thesis using a by (simp add: last_index_def)
    qed
    ultimately show ?thesis using assms Tick False
      by (simp add: attached_def tick_def update_keeps)
  qed
next
  case GotoBeg
  then show ?thesis using assms
    by (simp add: attached_def gotoBeg_def update_keeps stop_def)
next
  case GotoEnd
  then show ?thesis using assms
    by (simp add: attached_def gotoEnd_def update_keeps stop_def last_index_Ints last_index_nonneg)
qed

lemma attached_perform_all:
  assumes "attached s r" "pts r \<noteq> []" "\<forall>op \<in> set ops. integral_op op"
  shows "attached (perform_all s ops) r"
  using assms unfolding perform_all_def
  by (induction ops arbitrary: s) (simp_all add: attached_perform)


text \<open>
  C5, as the code has it.  For every state of the player, Stopped or Playing, and every
  route with at least one point, \<open>setRoute\<close> attaches the route, sets the index to 0 and
  publishes the new route state to the wind layer, with one redraw and no error; it
  leaves \<open>playing\<close> and the timer as they were.
\<close>

theorem setRoute_resets_index:
  assumes "pts r \<noteq> []"
  shows "setRoute s r =
           (s\<lparr> p_route := Some r, p_k := 0,
               wl_routeState := Some \<lparr> rs_t0Epoch = t0Epoch r, rs_dtRoute = dtRoute r, rs_k = 0 \<rparr>,
               wl_redraws := Suc (wl_redraws s) \<rparr>, None)
       \<and> p_playing (fst (setRoute s r)) = p_playing s
       \<and> p_timer (fst (setRoute s r)) = p_timer s
       \<and> p_k (fst (setRoute s r)) = 0
       \<and> p_route (fst (setRoute s r)) = Some r
       \<and> wl_routeState (fst (setRoute s r)) =
           Some \<lparr> rs_t0Epoch = t0Epoch r, rs_dtRoute = dtRoute r, rs_k = 0 \<rparr>"
proof -
  have "update (s\<lparr> p_route := Some r, p_k := 0 \<rparr>) =
          (s\<lparr> p_route := Some r, p_k := 0,
              wl_routeState := Some \<lparr> rs_t0Epoch = t0Epoch r, rs_dtRoute = dtRoute r, rs_k = 0 \<rparr>,
              wl_redraws := Suc (wl_redraws s) \<rparr>, None)"
    using update_ok [of "s\<lparr> p_route := Some r, p_k := 0 \<rparr>" r] assms
    by (simp add: last_index_nonneg)
  then show ?thesis by (simp add: setRoute_def)
qed

text \<open>A route of two points attached to the initial player.\<close>

theorem setRoute_resets_index_witness:
  "pts (route_of 2) \<noteq> []
   \<and> p_playing (fst (setRoute init_player (route_of 2))) = False
   \<and> p_k (fst (setRoute init_player (route_of 2))) = 0
   \<and> wl_routeState (fst (setRoute init_player (route_of 2))) =
        Some \<lparr> rs_t0Epoch = 0, rs_dtRoute = 3600, rs_k = 0 \<rparr>"
proof -
  have h: "pts (route_of 2) \<noteq> []" by (simp add: route_of_def)
  show ?thesis
    using h setRoute_resets_index [OF h, of init_player]
    by (simp add: init_player_def route_of_def)
qed

text \<open>
  C5 as it is written has every attachment end in the Stopped state.  A player that is
  playing a route of three points and is given a route of two points is still playing.
\<close>

theorem setRoute_keeps_playing_counterexample:
  "p_playing (play (fst (setRoute init_player (route_of 3))))
   \<and> p_playing (fst (setRoute (play (fst (setRoute init_player (route_of 3)))) (route_of 2)))"
  by (simp add: setRoute_def update_keeps play_def init_player_def)

text \<open>
  C9, as the code has it.  After a route of \<open>n \<ge> 1\<close> points is attached, every sequence
  of \<open>setIndex\<close> with an integer, \<open>step\<close> with 1 or -1, \<open>tick\<close>, \<open>gotoBeg\<close> and \<open>gotoEnd\<close>
  leaves the index an integer of \<open>0 .. n - 1\<close>.  At the last index \<open>step(+1)\<close> leaves the
  index and \<open>playing\<close> unchanged, and a tick only stops the player; \<open>setIndex\<close> with an
  integer out of range takes the nearest end of the range and raises nothing.
\<close>

theorem playback_index_in_range:
  assumes "pts r \<noteq> []" "\<forall>op \<in> set ops. integral_op op"
  shows "in_range (perform_all (fst (setRoute s0 r)) ops) (length (pts r))
    \<and> p_route (perform_all (fst (setRoute s0 r)) ops) = Some r
    \<and> (\<forall>s. p_route s = Some r \<and> p_k s = last_index r \<longrightarrow>
          p_k (fst (step s 1)) = p_k s \<and> snd (step s 1) = None
          \<and> p_playing (fst (step s 1)) = p_playing s)
    \<and> (\<forall>s x. p_route s = Some r \<and> of_int \<lfloor>x\<rfloor> = x \<longrightarrow>
          snd (setIndex s x) = None
          \<and> p_k (fst (setIndex s x)) =
               (if x < 0 then 0 else if last_index r < x then last_index r else x))
    \<and> (\<forall>s. p_route s = Some r \<and> p_k s = last_index r \<longrightarrow> tick s = (stop s, None))"
proof -
  have a: "attached (perform_all (fst (setRoute s0 r)) ops) r"
    using assms by (intro attached_perform_all attached_setRoute)
  then have A: "in_range (perform_all (fst (setRoute s0 r)) ops) (length (pts r))"
    by (rule attached_in_range)
  have B: "p_route (perform_all (fst (setRoute s0 r)) ops) = Some r"
    using a by (simp add: attached_def)
  have C: "p_k (fst (step s 1)) = p_k s \<and> snd (step s 1) = None
          \<and> p_playing (fst (step s 1)) = p_playing s"
    if h: "p_route s = Some r \<and> p_k s = last_index r" for s
  proof -
    have k: "max 0 (min (last_index r) (p_k s + 1)) = last_index r"
      using h last_index_nonneg [OF assms(1)] by (simp add: max_def min_def)
    have u: "update (s\<lparr> p_k := last_index r \<rparr>) =
      (s\<lparr> p_k := last_index r,
          wl_routeState := Some \<lparr> rs_t0Epoch = t0Epoch r, rs_dtRoute = dtRoute r, rs_k = last_index r \<rparr>,
          wl_redraws := Suc (wl_redraws s) \<rparr>, None)"
      using update_ok [of "s\<lparr> p_k := last_index r \<rparr>" r] h last_index_nonneg [OF assms(1)]
      by (simp add: last_index_Ints)
    show ?thesis using h k u by (simp add: step_def)
  qed
  have D: "snd (setIndex s x) = None
          \<and> p_k (fst (setIndex s x)) =
               (if x < 0 then 0 else if last_index r < x then last_index r else x)"
    if h: "p_route s = Some r \<and> of_int \<lfloor>x\<rfloor> = x" for s x
  proof -
    have x: "x \<in> \<int>" using h by (auto simp: Ints_def)
    define c where "c = max 0 (min (last_index r) x)"
    have c: "c \<in> \<int>" "0 \<le> c" "c \<le> last_index r"
      using clamp_Ints [OF x assms(1)] by (simp_all add: c_def)
    have u: "update (s\<lparr> p_k := c \<rparr>) =
      (s\<lparr> p_k := c,
          wl_routeState := Some \<lparr> rs_t0Epoch = t0Epoch r, rs_dtRoute = dtRoute r, rs_k = c \<rparr>,
          wl_redraws := Suc (wl_redraws s) \<rparr>, None)"
      using update_ok [of "s\<lparr> p_k := c \<rparr>" r] h c by simp
    have "c = (if x < 0 then 0 else if last_index r < x then last_index r else x)"
      using last_index_nonneg [OF assms(1)] by (auto simp: c_def max_def min_def)
    then show ?thesis
      using h u by (simp add: setIndex_def c_def [symmetric])
  qed
  have E: "tick s = (stop s, None)" if "p_route s = Some r \<and> p_k s = last_index r" for s
    using that by (simp add: tick_def)
  show ?thesis
    using A B C D E by blast
qed


text \<open>Three operations on a route of three points.\<close>

theorem playback_index_in_range_witness:
  "pts (route_of 3) \<noteq> []
   \<and> integral_op (SetIndex 7) \<and> integral_op (Step 1) \<and> integral_op Tick
   \<and> in_range (perform_all (fst (setRoute init_player (route_of 3))) [SetIndex 7, Step 1, Tick]) 3
   \<and> p_k (perform_all (fst (setRoute init_player (route_of 3))) [SetIndex 7, Step 1, Tick]) = 2"
proof -
  have h1: "pts (route_of 3) \<noteq> []" by (simp add: route_of_def)
  have h2: "\<forall>op \<in> set [SetIndex 7, Step 1, Tick]. integral_op op" by simp
  have l: "length (pts (route_of 3)) = 3" by (simp add: route_of_def)
  have "in_range (perform_all (fst (setRoute init_player (route_of 3))) [SetIndex 7, Step 1, Tick]) 3"
    using playback_index_in_range [OF h1 h2, of init_player] l by simp
  moreover have "p_k (perform_all (fst (setRoute init_player (route_of 3))) [SetIndex 7, Step 1, Tick]) = 2"
    by (simp add: perform_all_def setRoute_def setIndex_def step_def tick_def stop_def
          update_keeps last_index_def l)
  ultimately show ?thesis using h1 by simp
qed

text \<open>
  C9 as it is written takes any number and any route.  \<open>setIndex(0.5)\<close> on a route of
  three points leaves the index at 0.5, where \<open>update\<close> fails on \<open>route.pts[0.5]\<close>; and a
  route without points has no position for the index 0 it is attached with.
\<close>

theorem playback_index_counterexample:
  "p_k (perform_all (fst (setRoute init_player (route_of 3))) [SetIndex (1 / 2)]) = 1 / 2
   \<and> \<not> in_range (perform_all (fst (setRoute init_player (route_of 3))) [SetIndex (1 / 2)]) 3
   \<and> snd (setIndex (fst (setRoute init_player (route_of 3))) (1 / 2)) = Some TypeError
   \<and> \<not> in_range (fst (setRoute init_player (route_of 0))) (length (pts (route_of 0)))"
proof -
  have l: "length (pts (route_of 3)) = 3" by (simp add: route_of_def)
  have f: "\<lfloor>1 / 2 :: rat\<rfloor> = 0" by (rule floor_unique) simp_all
  have k: "p_k (perform_all (fst (setRoute init_player (route_of 3))) [SetIndex (1 / 2)]) = 1 / 2"
    by (simp add: perform_all_def setRoute_def setIndex_def update_keeps last_index_def l)
  have n: "\<not> in_range (perform_all (fst (setRoute init_player (route_of 3))) [SetIndex (1 / 2)]) 3"
    unfolding in_range_def k f by simp
  have r: "p_route (fst (setRoute init_player (route_of 3))) = Some (route_of 3)"
    by (simp add: setRoute_def update_keeps)
  have "pts_at (route_of 3) (1 / 2) = None"
    unfolding pts_at_def f by simp
  then have t: "snd (setIndex (fst (setRoute init_player (route_of 3))) (1 / 2)) = Some TypeError"
    by (simp add: setIndex_def r update_def last_index_def l)
  have e: "\<not> in_range (fst (setRoute init_player (route_of 0))) (length (pts (route_of 0)))"
    by (simp add: in_range_def setRoute_def update_keeps route_of_def)
  from k n t e show ?thesis by simp
qed

section \<open>Properties of the wind barbs\<close>

lemma sqrt_vertical: "sqrt (0 * 0 + v * v) = v" if "0 \<le> v" for v :: real
  using that by simp

lemma barb_counts_63: "barb_counts 63 = (1, 1, 0)"
proof -
  have a: "\<lfloor>63 / 50 :: real\<rfloor> = 1" by (rule floor_unique) simp_all
  have b: "\<lfloor>13 / 10 :: real\<rfloor> = 1" by (rule floor_unique) simp_all
  show ?thesis by (simp add: barb_counts_def Let_def a b)
qed

lemma barb_counts_63_biased: "barb_counts (63 + 5 / 2) = (1, 1, 1)"
proof -
  have a: "\<lfloor>(63 + 5 / 2) / 50 :: real\<rfloor> = 1" by (rule floor_unique) simp_all
  have b: "\<lfloor>(63 + 5 / 2 - 50) / 10 :: real\<rfloor> = 1" by (rule floor_unique) simp_all
  show ?thesis unfolding barb_counts_def Let_def a using b by simp
qed

text \<open>
  C8, as the code has it.  A speed of 63 knots to which the bias of 2.5 is then added
  (65.5 knots) gives one pennant, one barb and one half-barb, drawn in this order after
  the shaft (shown for a wind of 31.5 m/s from the north with a factor of 2); and for
  every speed below 2 knots, taken before the bias, only the circle is drawn, with no
  shaft and no flag.
\<close>

theorem drawWindBarb_decomposition:
  "barb_counts (63 + 5 / 2) = (1, 1, 1)
   \<and> drawWindBarb 2 0 0 0 (63 / 2) =
       [BeginPath, MoveTo 0 (- 9), LineTo 0 9, Stroke,
        BeginPath, MoveTo 0 9, LineTo 0 5, LineTo (- 7) 5, ClosePath, Fill, Stroke,
        BeginPath, MoveTo 0 5, LineTo (- 7) 5, Stroke,
        BeginPath, MoveTo 0 1, LineTo (- 7 / 2) 1, Stroke]
   \<and> (sqrt (u * u + v * v) * MS_TO_KN < 2 \<longrightarrow>
        drawWindBarb MS_TO_KN x y u v = [BeginPath, Arc x y 3 0 (pi * 2), Stroke])"
proof -
  have m: "sqrt (0 * 0 + 63 / 2 * (63 / 2)) = (63 / 2 :: real)"
    by (rule sqrt_vertical) simp
  have s: "63 / 2 * 2 + 5 / 2 = (63 + 5 / 2 :: real)" by simp
  have d: "drawWindBarb 2 0 0 0 (63 / 2) =
       [BeginPath, MoveTo 0 (- 9), LineTo 0 9, Stroke,
        BeginPath, MoveTo 0 9, LineTo 0 5, LineTo (- 7) 5, ClosePath, Fill, Stroke,
        BeginPath, MoveTo 0 5, LineTo (- 7) 5, Stroke,
        BeginPath, MoveTo 0 1, LineTo (- 7 / 2) 1, Stroke]"
    unfolding drawWindBarb_def Let_def m s barb_counts_63_biased
    by (simp add: half_barb_def numeral_eq_Suc)
  have c: "sqrt (u * u + v * v) * MS_TO_KN < 2 \<longrightarrow>
        drawWindBarb MS_TO_KN x y u v = [BeginPath, Arc x y 3 0 (pi * 2), Stroke]"
    by (simp add: drawWindBarb_def)
  show ?thesis
    by (intro conjI, rule barb_counts_63_biased, rule d, rule c)
qed

text \<open>A wind of 1 knot.\<close>

theorem drawWindBarb_decomposition_witness:
  "sqrt (0 * 0 + 1 / 2 * (1 / 2)) * 2 < (2 :: real)
   \<and> drawWindBarb 2 0 0 0 (1 / 2) = [BeginPath, Arc 0 0 3 0 (pi * 2), Stroke]"
proof -
  have m: "sqrt (0 * 0 + 1 / 2 * (1 / 2)) = (1 / 2 :: real)"
    by (rule sqrt_vertical) simp
  have h: "sqrt (0 * 0 + 1 / 2 * (1 / 2)) * 2 < (2 :: real)"
    unfolding m by simp
  from drawWindBarb_decomposition [of 0 "1 / 2" 2 0 0]
  have "sqrt (0 * 0 + 1 / 2 * (1 / 2)) * 2 < (2 :: real) \<longrightarrow>
        drawWindBarb 2 0 0 0 (1 / 2) = [BeginPath, Arc 0 0 3 0 (pi * 2), Stroke]"
    by (elim conjE)
  with h show ?thesis by (intro conjI) (rule h, erule mp)
qed

text \<open>
  C8 as it is written takes 63 knots as the speed after the bias.  That speed gives one
  pennant and one barb, and a remainder of 3 knots, below the 5 of a half-barb.
\<close>

theorem drawWindBarb_63_counterexample:
  "barb_counts 63 = (1, 1, 0)
   \<and> sqrt (0 * 0 + 121 / 4 * (121 / 4)) * 2 + 5 / 2 = 63
   \<and> drawWindBarb 2 0 0 0 (121 / 4) =
       [BeginPath, MoveTo 0 (- 9), LineTo 0 9, Stroke,
        BeginPath, MoveTo 0 9, LineTo 0 5, LineTo (- 7) 5, ClosePath, Fill, Stroke,
        BeginPath, MoveTo 0 5, LineTo (- 7) 5, Stroke]"
proof -
  have m: "sqrt (0 * 0 + 121 / 4 * (121 / 4)) = (121 / 4 :: real)"
    by (rule sqrt_vertical) simp
  have s: "121 / 4 * 2 + 5 / 2 = (63 :: real)" by simp
  have d: "drawWindBarb 2 0 0 0 (121 / 4) =
       [BeginPath, MoveTo 0 (- 9), LineTo 0 9, Stroke,
        BeginPath, MoveTo 0 9, LineTo 0 5, LineTo (- 7) 5, ClosePath, Fill, Stroke,
        BeginPath, MoveTo 0 5, LineTo (- 7) 5, Stroke]"
    unfolding drawWindBarb_def Let_def m s barb_counts_63
    by (simp add: half_barb_def numeral_eq_Suc)
  have b: "sqrt (0 * 0 + 121 / 4 * (121 / 4)) * 2 + 5 / 2 = 63"
    unfolding m by simp
  show ?thesis
    by (intro conjI, rule barb_counts_63, rule b, rule d)
qed

section \<open>Properties of the forecast cache\<close>

lemma gribLoad_gfs: "gribLoad uvg_response 2 1 1 3 = Inr gfs_field"
  by (simp add: gribLoad_def uvg_response_def Float32Array_def header_nShortName_def
        hasG_def hasW_def le_float32_def gfs_field_def)

lemma gribLoad_ecmwf: "gribLoad uvg_response 1 1 1 3 = Inl (UnexpectedSize 6 3)"
  by (simp add: gribLoad_def uvg_response_def Float32Array_def header_nShortName_def
        hasG_def hasW_def le_float32_def)

lemma call_loading:
  "cache_loading (gribCache w) \<Longrightarrow>
   ensureGribLoaded_call w a = (w, Returned (cache_meta (gribCache w)) (cache_field (gribCache w)))"
  by (simp add: ensureGribLoaded_call_def Let_def)

lemma call_hit:
  assumes "cache_key (gribCache w) = Some (wantedKey a)" "is_object (cache_meta (gribCache w))"
    "has_getUVGW (heap w) (cache_field (gribCache w))"
  shows "ensureGribLoaded_call w a = (w, Returned (cache_meta (gribCache w)) (cache_field (gribCache w)))"
  using assms by (simp add: ensureGribLoaded_call_def Let_def)

lemma call_cases:
  assumes "\<not> cache_loading (gribCache w)"
  shows "(snd (ensureGribLoaded_call w a) = Fetching (AwaitMeta a)
            \<and> cache_loading (gribCache (fst (ensureGribLoaded_call w a))))
       \<or> ((\<exists>m f. snd (ensureGribLoaded_call w a) = Returned m f)
            \<and> \<not> cache_loading (gribCache (fst (ensureGribLoaded_call w a))))"
  using assms by (simp add: ensureGribLoaded_call_def Let_def set_loading_def fetch_def)

lemma meta_cases:
  "(\<exists>t. snd (ensureGribLoaded_meta w a r) = Fetching t
        \<and> cache_loading (gribCache (fst (ensureGribLoaded_meta w a r))) = cache_loading (gribCache w))
   \<or> ((\<exists>e. snd (ensureGribLoaded_meta w a r) = Threw e)
        \<and> \<not> cache_loading (gribCache (fst (ensureGribLoaded_meta w a r))))"
  by (auto simp: ensureGribLoaded_meta_def gribMetaAndLoad_meta_def set_loading_def fetch_def
           split: meta_json.splits)

lemma dump_cases:
  "((\<exists>m f. snd (ensureGribLoaded_dump w a nT nLa nLo nN r) = Returned m f)
     \<or> (\<exists>e. snd (ensureGribLoaded_dump w a nT nLa nLo nN r) = Threw e))
   \<and> \<not> cache_loading (gribCache (fst (ensureGribLoaded_dump w a nT nLa nLo nN r)))"
  by (auto simp: ensureGribLoaded_dump_def gribMetaAndLoad_dump_def set_loading_def Let_def
           split: sum.splits)

lemma returned_is_cached_call:
  assumes "ensureGribLoaded_call w a = (w1, Returned m f)"
  shows "cache_meta (gribCache w1) = m \<and> cache_field (gribCache w1) = f"
  using assms by (auto simp: ensureGribLoaded_call_def Let_def split: if_splits)

lemma returned_is_cached_dump:
  assumes "ensureGribLoaded_dump w a nT nLa nLo nN r = (w1, Returned m f)"
  shows "cache_meta (gribCache w1) = m \<and> cache_field (gribCache w1) = f"
  using assms
  by (auto simp: ensureGribLoaded_dump_def gribMetaAndLoad_dump_def Let_def split: sum.splits)

lemma returned_is_cached:
  assumes "ensureGribLoaded w a mres dres = (w1, Returned m f)"
  shows "cache_meta (gribCache w1) = m \<and> cache_field (gribCache w1) = f"
proof (cases "ensureGribLoaded_call w a")
  case (Pair wc oc)
  show ?thesis
  proof (cases oc)
    case (Returned m' f')
    then show ?thesis using assms Pair returned_is_cached_call [of w a wc m' f']
      by (simp add: ensureGribLoaded_def)
  next
    case (Threw e)
    then show ?thesis using assms Pair by (simp add: ensureGribLoaded_def)
  next
    case (Fetching t)
    obtain wm om where m: "ensureGribLoaded_meta wc a mres = (wm, om)"
      by (cases "ensureGribLoaded_meta wc a mres")
    show ?thesis
    proof (cases om)
      case (Fetching t2)
      then show ?thesis
        using assms Pair \<open>oc = Fetching t\<close> m returned_is_cached_dump
        by (cases t2) (auto simp: ensureGribLoaded_def)
    next
      case (Returned m' f')
      then show ?thesis using meta_cases [of wc a mres] m by simp
    next
      case (Threw e)
      then show ?thesis
        using assms Pair \<open>oc = Fetching t\<close> m by (simp add: ensureGribLoaded_def)
    qed
  qed
qed


lemmas cache_eval =
  ensureGribLoaded_def ensureGribLoaded_call_def ensureGribLoaded_meta_def
  ensureGribLoaded_dump_def gribMetaAndLoad_meta_def gribMetaAndLoad_dump_def
  forceReloadGrib_call_def
  init_world_def gfs_args_def gfs_meta_response_def gfs_meta_def steps_meta_def
  ecmwf_args_def ecmwf_meta_response_def ecmwf_meta_def gfs_route_args_def
  wantedKey_def make_key_def set_loading_def fetch_def gribLimits_def meta_name_def
  js_index_def gribLoad_gfs gribLoad_ecmwf gfs_world_def is_object_def has_getUVGW_def

text \<open>
  C4, as the code has it.  When a call has completed with a meta and a field object,
  and the next call builds the key that is now stored in the cache (the stored key
  carries the file name of the metadata, \<open>meta.name\<close>, when there is one, not the name
  that was asked for), the next call requests nothing, leaves the world as it is and
  returns the same two references.
\<close>

theorem ensureGribLoaded_cache_hit:
  assumes "ensureGribLoaded w a mres dres = (w1, Returned m f)"
    and "is_object m" and "has_getUVGW (heap w1) f"
    and "cache_key (gribCache w1) = Some (wantedKey a')"
  shows "ensureGribLoaded_call w1 a' = (w1, Returned m f)
       \<and> ensureGribLoaded w1 a' mres' dres' = (w1, Returned m f)
       \<and> fetches (fst (ensureGribLoaded w1 a' mres' dres')) = fetches w1"
proof -
  have c: "cache_meta (gribCache w1) = m" "cache_field (gribCache w1) = f"
    using returned_is_cached [OF assms(1)] by simp_all
  have call: "ensureGribLoaded_call w1 a' = (w1, Returned m f)"
  proof (cases "cache_loading (gribCache w1)")
    case True
    then show ?thesis using call_loading [of w1 a'] c by simp
  next
    case False
    show ?thesis using call_hit [of w1 a'] assms(2-4) c by simp
  qed
  then have "ensureGribLoaded w1 a' mres' dres' = (w1, Returned m f)"
    by (simp add: ensureGribLoaded_def)
  with call show ?thesis by simp
qed

text \<open>GFS loaded by model, then asked for by the file name the server gave.\<close>

theorem ensureGribLoaded_cache_hit_witness:
  "ensureGribLoaded init_world gfs_args gfs_meta_response uvg_response
     = (gfs_world, Returned (Ref 0) (Ref 2))
   \<and> is_object (Ref 0) \<and> has_getUVGW (heap gfs_world) (Ref 2)
   \<and> cache_key (gribCache gfs_world) = Some (wantedKey gfs_route_args)
   \<and> ensureGribLoaded gfs_world gfs_route_args ecmwf_meta_response uvg_response
     = (gfs_world, Returned (Ref 0) (Ref 2))
   \<and> fetches (fst (ensureGribLoaded gfs_world gfs_route_args ecmwf_meta_response uvg_response)) = 2"
proof -
  have h1: "ensureGribLoaded init_world gfs_args gfs_meta_response uvg_response
     = (gfs_world, Returned (Ref 0) (Ref 2))"
    by (simp add: cache_eval)
  have h2: "is_object (Ref 0)" by (simp add: is_object_def)
  have h3: "has_getUVGW (heap gfs_world) (Ref 2)"
    by (simp add: has_getUVGW_def gfs_world_def js_index_def)
  have h4: "cache_key (gribCache gfs_world) = Some (wantedKey gfs_route_args)"
    by (simp add: gfs_world_def wantedKey_def make_key_def gfs_route_args_def)
  have f: "fetches gfs_world = 2" by (simp add: gfs_world_def)
  show ?thesis
    using ensureGribLoaded_cache_hit [OF h1 h2 h3 h4, of ecmwf_meta_response uvg_response] h1 h2 h3 h4 f
    by simp
qed

text \<open>
  C4 as it is written compares the keys the two calls build.  GFS asked for by model
  twice: the first call stores the key with the server's file name, the second one
  builds the key without it, requests the forecast again and returns a new field
  object.
\<close>

theorem ensureGribLoaded_same_arguments_counterexample:
  "ensureGribLoaded init_world gfs_args gfs_meta_response uvg_response
     = (gfs_world, Returned (Ref 0) (Ref 2))
   \<and> is_object (Ref 0) \<and> has_getUVGW (heap gfs_world) (Ref 2)
   \<and> snd (ensureGribLoaded_call gfs_world gfs_args) = Fetching (AwaitMeta gfs_args)
   \<and> fetches (fst (ensureGribLoaded_call gfs_world gfs_args)) = Suc (fetches gfs_world)
   \<and> snd (ensureGribLoaded gfs_world gfs_args gfs_meta_response uvg_response)
     = Returned (Ref 0) (Ref 3)"
  by (simp add: cache_eval)

text \<open>
  C6 on the code.  With GFS in the cache, a load of ECMWF whose binary response has the
  wrong length ends in the size error and leaves the cache's key, field, flag and meta
  reference as they were; but the meta object that reference points to is the one
  \<open>Object.assign\<close> has already overwritten, so the cached meta now holds the metadata of
  ECMWF beside the field of GFS.
\<close>

theorem ensureGribLoaded_failed_load_overwrites_meta:
  "ensureGribLoaded init_world gfs_args gfs_meta_response uvg_response
     = (gfs_world, Returned (Ref 0) (Ref 2))
   \<and> cache_meta (gribCache gfs_world) = Ref 0
   \<and> js_index (heap gfs_world) 0 = Some (MetaObj gfs_meta)
   \<and> snd (ensureGribLoaded gfs_world ecmwf_args ecmwf_meta_response uvg_response)
     = Threw (UnexpectedSize 6 3)
   \<and> gribCache (fst (ensureGribLoaded gfs_world ecmwf_args ecmwf_meta_response uvg_response))
     = gribCache gfs_world
   \<and> js_index (heap (fst (ensureGribLoaded gfs_world ecmwf_args ecmwf_meta_response uvg_response))) 2
     = Some (FieldObj gfs_field)
   \<and> js_index (heap (fst (ensureGribLoaded gfs_world ecmwf_args ecmwf_meta_response uvg_response))) 0
     = Some (MetaObj ecmwf_meta)
   \<and> ecmwf_meta \<noteq> gfs_meta"
proof -
  have "name ecmwf_meta \<noteq> name gfs_meta"
    by (simp add: ecmwf_meta_def gfs_meta_def steps_meta_def)
  then have "ecmwf_meta \<noteq> gfs_meta" by auto
  moreover have "ensureGribLoaded gfs_world ecmwf_args ecmwf_meta_response uvg_response =
     (gfs_world\<lparr> heap := [MetaObj ecmwf_meta, EmptyObj, FieldObj gfs_field], fetches := 4 \<rparr>,
      Threw (UnexpectedSize 6 3))"
    by (simp add: ensureGribLoaded_def ensureGribLoaded_call_def ensureGribLoaded_meta_def
        ensureGribLoaded_dump_def gribMetaAndLoad_meta_def gribMetaAndLoad_dump_def
        ecmwf_args_def ecmwf_meta_response_def wantedKey_def make_key_def set_loading_def fetch_def
        gribLimits_def gribLoad_ecmwf gfs_world_def is_object_def has_getUVGW_def
        ecmwf_meta_def steps_meta_def)
  ultimately show ?thesis
    by (simp add: cache_eval)
qed


lemma one_load_nil: "one_load s \<Longrightarrow> \<not> cache_loading (gribCache (sys_world s)) \<Longrightarrow> inflight s = []"
  by (simp add: one_load_def)

lemma one_load_single:
  "one_load s \<Longrightarrow> i < length (inflight s) \<Longrightarrow>
   i = 0 \<and> inflight s = [inflight s ! 0] \<and> cache_loading (gribCache (sys_world s))"
  by (cases "inflight s") (auto simp: one_load_def)

lemma one_load_start:
  assumes "inflight s = []" "\<not> cache_loading (gribCache w)"
  shows "one_load (start s (ensureGribLoaded_call w a))"
  using call_cases [OF assms(2), of a] assms(1)
  by (auto simp: start_def one_load_def)

lemma one_load_step:
  assumes "one_load s" "is_force ev \<longrightarrow> inflight s = []"
  shows "one_load (step_event s ev)"
proof (cases ev)
  case (CallEnsure a)
  show ?thesis
  proof (cases "cache_loading (gribCache (sys_world s))")
    case True
    then show ?thesis using assms(1) CallEnsure call_loading [of "sys_world s" a]
      by (simp add: start_def one_load_def)
  next
    case False
    then have "inflight s = []" using assms(1) by (rule one_load_nil [rotated])
    then show ?thesis using CallEnsure False by (simp add: one_load_start)
  qed
next
  case (CallForce a)
  then have "inflight s = []" using assms(2) by simp
  then show ?thesis using CallForce
    by (simp add: forceReloadGrib_call_def one_load_start)
next
  case (MetaArrives i r)
  show ?thesis
  proof (cases "i < length (inflight s)")
    case False
    then show ?thesis using MetaArrives assms(1) by simp
  next
    case True
    note one = one_load_single [OF assms(1) True]
    show ?thesis
    proof (cases "inflight s ! i")
      case (AwaitMeta a)
      show ?thesis
        using meta_cases [of "sys_world s" a r] MetaArrives True AwaitMeta one
        by (auto simp: settle_def one_load_def)
    next
      case (AwaitDump a nT nLa nLo nN)
      then show ?thesis using MetaArrives True assms(1) by simp
    qed
  qed
next
  case (DumpArrives i r)
  show ?thesis
  proof (cases "i < length (inflight s)")
    case False
    then show ?thesis using DumpArrives assms(1) by simp
  next
    case True
    note one = one_load_single [OF assms(1) True]
    show ?thesis
    proof (cases "inflight s ! i")
      case (AwaitMeta a)
      then show ?thesis using DumpArrives True assms(1) by simp
    next
      case (AwaitDump a nT nLa nLo nN)
      show ?thesis
        using dump_cases [of "sys_world s" a nT nLa nLo nN r] DumpArrives True AwaitDump one
        by (auto simp: settle_def one_load_def)
    qed
  qed
qed

lemma one_load_run:
  assumes "one_load s" "no_force_in_progress s evs"
  shows "one_load (run_events s evs)"
  using assms unfolding run_events_def
proof (induction evs arbitrary: s)
  case Nil
  then show ?case by simp
next
  case (Cons ev evs)
  then have "one_load (step_event s ev)" by (intro one_load_step) auto
  then show ?case using Cons by simp
qed

lemma one_load_init: "one_load init_system"
  by (simp add: one_load_def init_system_def init_world_def)

lemma loads_in_progress_le: "loads_in_progress s k \<le> length (inflight s)"
  by (simp add: loads_in_progress_def)

text \<open>
  C7, as the code has it.  In every run of calls and responses in which no forced
  reload arrives while a load is in flight, at most one load is in flight at any time,
  for any key, and \<open>loading\<close> is set exactly then; a call that arrives meanwhile
  requests nothing and returns the cached meta and field as they are; and \<open>loading\<close> is
  cleared when a load ends, by an error on the metadata or on the binary response as
  well as by success.
\<close>

theorem one_load_in_progress:
  assumes "no_force_in_progress init_system evs"
  shows "loads_in_progress (run_events init_system evs) k \<le> 1
    \<and> length (inflight (run_events init_system evs)) \<le> 1
    \<and> cache_loading (gribCache (sys_world (run_events init_system evs)))
        = (inflight (run_events init_system evs) \<noteq> [])
    \<and> (inflight (run_events init_system evs) \<noteq> [] \<longrightarrow>
         ensureGribLoaded_call (sys_world (run_events init_system evs)) a =
           (sys_world (run_events init_system evs),
            Returned (cache_meta (gribCache (sys_world (run_events init_system evs))))
                     (cache_field (gribCache (sys_world (run_events init_system evs))))))
    \<and> (\<forall>e. snd (ensureGribLoaded_meta w a mres) = Threw e \<longrightarrow>
           \<not> cache_loading (gribCache (fst (ensureGribLoaded_meta w a mres))))
    \<and> \<not> cache_loading (gribCache (fst (ensureGribLoaded_dump w a nTime nLat' nLon' nName dres)))"
proof -
  define s where "s = run_events init_system evs"
  have inv: "one_load s"
    unfolding s_def using one_load_init assms by (rule one_load_run)
  have A: "length (inflight s) \<le> 1"
    and B: "cache_loading (gribCache (sys_world s)) = (inflight s \<noteq> [])"
    using inv by (simp_all add: one_load_def)
  have A': "loads_in_progress s k \<le> 1"
    using loads_in_progress_le [of s k] A by simp
  have C: "inflight s \<noteq> [] \<longrightarrow> ensureGribLoaded_call (sys_world s) a =
           (sys_world s, Returned (cache_meta (gribCache (sys_world s)))
                                  (cache_field (gribCache (sys_world s))))"
    using B call_loading [of "sys_world s" a] by simp
  have D: "\<forall>e. snd (ensureGribLoaded_meta w a mres) = Threw e \<longrightarrow>
           \<not> cache_loading (gribCache (fst (ensureGribLoaded_meta w a mres)))"
    using meta_cases [of w a mres] by auto
  have E: "\<not> cache_loading (gribCache (fst (ensureGribLoaded_dump w a nTime nLat' nLon' nName dres)))"
    using dump_cases [of w a nTime nLat' nLon' nName dres] by simp
  show ?thesis
    using A' A B C D E unfolding s_def by (intro conjI)
qed

text \<open>
  C7 as it is written extends to forced reloads.  \<open>forceReloadGrib\<close> clears \<open>loading\<close>
  before it calls \<open>ensureGribLoaded\<close>: arriving while GFS is being loaded, it starts a
  second load for the same key.
\<close>

theorem forceReloadGrib_second_load_counterexample:
  "inflight (run_events init_system [CallEnsure gfs_args, CallForce gfs_args])
     = [AwaitMeta gfs_args, AwaitMeta gfs_args]
   \<and> loads_in_progress (run_events init_system [CallEnsure gfs_args, CallForce gfs_args])
        (wantedKey gfs_args) = 2"
  by (simp add: run_events_def init_system_def start_def loads_in_progress_def cache_eval)


text \<open>
  A forced reload with nothing in flight, a call for ECMWF that arrives during the
  load and gets the empty cache, and the metadata of GFS arriving.
\<close>

theorem one_load_in_progress_witness:
  "no_force_in_progress init_system
     [CallForce gfs_args, CallEnsure ecmwf_args, MetaArrives 0 gfs_meta_response]
   \<and> inflight (run_events init_system
        [CallForce gfs_args, CallEnsure ecmwf_args, MetaArrives 0 gfs_meta_response])
       = [AwaitDump gfs_args 2 1 1 3]
   \<and> loads_in_progress (run_events init_system
        [CallForce gfs_args, CallEnsure ecmwf_args, MetaArrives 0 gfs_meta_response])
        (wantedKey gfs_args) \<le> 1
   \<and> snd (ensureGribLoaded_call (sys_world (run_events init_system
        [CallForce gfs_args, CallEnsure ecmwf_args, MetaArrives 0 gfs_meta_response])) ecmwf_args)
       = Returned Null Null"
proof -
  let ?evs = "[CallForce gfs_args, CallEnsure ecmwf_args, MetaArrives 0 gfs_meta_response]"
  have i: "inflight (run_events init_system ?evs) = [AwaitDump gfs_args 2 1 1 3]"
    and c: "cache_meta (gribCache (sys_world (run_events init_system ?evs))) = Null"
      "cache_field (gribCache (sys_world (run_events init_system ?evs))) = Null"
    by (simp_all add: run_events_def init_system_def start_def settle_def cache_eval)
  have h: "no_force_in_progress init_system ?evs"
    by (simp add: init_system_def start_def settle_def cache_eval)
  note t = one_load_in_progress [OF h, of "wantedKey gfs_args" ecmwf_args]
  have l: "loads_in_progress (run_events init_system ?evs) (wantedKey gfs_args) \<le> 1"
    by (rule t [THEN conjunct1])
  have "snd (ensureGribLoaded_call (sys_world (run_events init_system ?evs)) ecmwf_args)
       = Returned Null Null"
    using t [THEN conjunct2, THEN conjunct2, THEN conjunct2, THEN conjunct1] i c by simp
  with h i l show ?thesis by (intro conjI)
qed

end
